theory Spec2Isabelle
  imports Main
begin

section \<open>Data model of DependencyGraph.py\<close>

text \<open>
  The exceptions the module can raise: \<open>ValueError\<close> (unknown or duplicated component,
  unknown direction, extremum of an empty sequence), the two exception classes of the
  module that are raised, and the two errors of the Python runtime that the dictionary
  and \<open>timedelta\<close> operations of the code can raise.
\<close>

datatype error =
    ValueError
  | KeyError
  | OverflowError
  | DependencyCycleException
  | DependencyDuplicateDependencyException

datatype DependencyColor = WHITE | GRAY | BLACK

text \<open>The four keys of a start/stop record (\<open>BEGIN_SHUTDOWN_KEY\<close> ... \<open>END_STARTUP_KEY\<close>).\<close>

datatype ss_key = BEGIN_SHUTDOWN_KEY | BEGIN_STARTUP_KEY | END_SHUTDOWN_KEY | END_STARTUP_KEY

text \<open>\<open>DependencyDirection\<close>: the two class constants are plain Python integers.\<close>

definition SHUTDOWN :: int where "SHUTDOWN = 1"

definition STARTUP :: int where "STARTUP = 0"

subsection \<open>datetime.timedelta\<close>

text \<open>
  A \<open>timedelta\<close> is an exact count of microseconds, which Python keeps normalised as
  \<open>days\<close>, \<open>seconds\<close> (0 to 86399) and \<open>microseconds\<close> (0 to 999999); the three
  attributes are the floor quotients below (Python's floor division is HOL's \<open>div\<close> on
  \<open>int\<close>). Arithmetic whose result leaves the range of \<open>days\<close> raises OverflowError.
\<close>

type_synonym timedelta = int

definition td_days :: "timedelta \<Rightarrow> int" where
  "td_days t = t div 86400000000"

definition td_seconds :: "timedelta \<Rightarrow> int" where
  "td_seconds t = (t div 1000000) mod 86400"

definition td_microseconds :: "timedelta \<Rightarrow> int" where
  "td_microseconds t = t mod 1000000"

definition td_in_range :: "timedelta \<Rightarrow> bool" where
  "td_in_range t = (- 999999999 \<le> td_days t \<and> td_days t \<le> 999999999)"

definition td_add :: "timedelta \<Rightarrow> timedelta \<Rightarrow> error + timedelta" where
  "td_add a b = (if td_in_range (a + b) then Inr (a + b) else Inl OverflowError)"

definition td_sub :: "timedelta \<Rightarrow> timedelta \<Rightarrow> error + timedelta" where
  "td_sub a b = (if td_in_range (a - b) then Inr (a - b) else Inl OverflowError)"

definition td_minutes :: "int \<Rightarrow> timedelta" where
  "td_minutes n = n * 60000000"

definition td_of_days :: "int \<Rightarrow> timedelta" where
  "td_of_days n = n * 86400000000"

subsection \<open>Nodes and graph\<close>

text \<open>
  The attributes of a component: the dictionary with the keys \<open>START_KEY\<close> and
  \<open>STOP_KEY\<close>.
\<close>

record component_attributes =
  tstart :: timedelta
  tstop :: timedelta

text \<open>
  The \<open>DependencyNode\<close> objects are shared between \<open>nodesByName\<close>, \<open>rootsByName\<close>,
  \<open>leavesByName\<close> and the \<open>parents\<close> and \<open>children\<close> dictionaries of other nodes, and
  are mutated through all of them. The model keeps them in one store indexed by the
  node's name (names are unique, \<open>add_node\<close>): \<open>nodesByName\<close> is the list of keys of
  the dictionary in insertion order, and \<open>attributes\<close>, \<open>parents\<close>, \<open>children\<close> give
  the fields of the node of each name. A dictionary whose values are nodes is the list of
  its keys, in insertion order (the order Python iterates it in).
\<close>

record DependencyGraph =
  nodesByName :: "string list"
  attributes :: "string \<Rightarrow> component_attributes"
  parents :: "string \<Rightarrow> string list"
  children :: "string \<Rightarrow> string list"
  rootsByName :: "string list"
  leavesByName :: "string list"
  startStopInfoByName :: "string \<rightharpoonup> (ss_key \<rightharpoonup> timedelta)"
  start_tsorted_names :: "string list"
  rejected_dependencies :: "(string \<times> string) list"
  is_strict :: bool
  verbosity :: int
  printed :: "string list"

text \<open>Dictionaries as key lists: \<open>d[k] = v\<close> keeps the place of a key already there.\<close>

definition dict_set :: "'a \<Rightarrow> 'a list \<Rightarrow> 'a list" where
  "dict_set k ks = (if k \<in> set ks then ks else ks @ [k])"

text \<open>\<open>del d[k]\<close> raises KeyError when the key is absent.\<close>

definition dict_del :: "'a \<Rightarrow> 'a list \<Rightarrow> error + 'a list" where
  "dict_del k ks = (if k \<in> set ks then Inr (removeAll k ks) else Inl KeyError)"

section \<open>Diagnostics\<close>

text \<open>
  \<open>vprint\<close> writes a line to standard output when the verbosity reaches the level. The
  lines written so far are the field \<open>printed\<close>; a line is recorded as its format
  string (the values formatted into it are not part of the model).
\<close>

definition vprint :: "int \<Rightarrow> string \<Rightarrow> DependencyGraph \<Rightarrow> DependencyGraph" where
  "vprint min_verbosity msg g =
     g\<lparr>printed := (if min_verbosity \<le> verbosity g then printed g @ [msg] else printed g)\<rparr>"

text \<open>The banners of the \<open>trace\<close> decorator, before and after the wrapped function.\<close>

definition trace_enter :: "int \<Rightarrow> string \<Rightarrow> DependencyGraph \<Rightarrow> DependencyGraph" where
  "trace_enter trace_level fname g =
     vprint trace_level (''Entering '' @ fname) (vprint trace_level (replicate 40 CHR ''='') g)"

definition trace_exit :: "int \<Rightarrow> string \<Rightarrow> DependencyGraph \<Rightarrow> DependencyGraph" where
  "trace_exit trace_level fname g = vprint trace_level (''Exiting '' @ fname) g"

definition vprint_edges :: "int \<Rightarrow> DependencyGraph \<Rightarrow> DependencyGraph" where
  "vprint_edges min_verbosity g = vprint min_verbosity ''Edges: '' g"

definition vprint_nodes :: "int \<Rightarrow> DependencyGraph \<Rightarrow> DependencyGraph" where
  "vprint_nodes min_verbosity g = vprint min_verbosity ''Nodes: '' g"

definition num_edges :: "DependencyGraph \<Rightarrow> nat" where
  "num_edges g = sum_list (map (\<lambda>name. length (children g name)) (nodesByName g))"

definition num_nodes :: "DependencyGraph \<Rightarrow> nat" where
  "num_nodes g = length (nodesByName g)"

section \<open>Construction\<close>

subsection \<open>Nodes\<close>

definition add_node ::
  "string \<Rightarrow> component_attributes \<Rightarrow> DependencyGraph \<Rightarrow> error + DependencyGraph" where
  "add_node name attrs g =
     (if name \<in> set (nodesByName g) then Inl ValueError
      else Inr (g\<lparr>nodesByName := nodesByName g @ [name],
                  attributes := (attributes g)(name := attrs),
                  parents := (parents g)(name := []),
                  children := (children g)(name := [])\<rparr>))"

fun init_nodes_loop ::
  "(string \<times> component_attributes) list \<Rightarrow> DependencyGraph \<Rightarrow> error + DependencyGraph" where
  "init_nodes_loop [] g = Inr g"
| "init_nodes_loop ((name, attrs) # components) g =
     (case add_node name attrs g of
        Inl e \<Rightarrow> Inl e
      | Inr g' \<Rightarrow> init_nodes_loop components g')"

definition init_nodes ::
  "(string \<times> component_attributes) list \<Rightarrow> DependencyGraph \<Rightarrow> error + DependencyGraph" where
  "init_nodes components g =
     (case init_nodes_loop components (trace_enter 1 ''init_nodes'' g) of
        Inl e \<Rightarrow> Inl e
      | Inr g' \<Rightarrow> Inr (trace_exit 1 ''init_nodes'' g'))"

subsection \<open>Edges\<close>

text \<open>A dependency is the pair (\<open>dep[COMPONENT_KEY]\<close>, \<open>dep[REQUIREMENT_KEY]\<close>).\<close>

fun init_edges_loop :: "(string \<times> string) list \<Rightarrow> DependencyGraph \<Rightarrow> error + DependencyGraph" where
  "init_edges_loop [] g = Inr g"
| "init_edges_loop ((comp_name, req_name) # dependencies) g =
     (if comp_name \<notin> set (nodesByName g) then Inl ValueError
      else if req_name \<notin> set (nodesByName g) then Inl ValueError
      else if req_name \<in> set (children g comp_name)
        then Inl DependencyDuplicateDependencyException
      else
        let g1 = vprint 2 ''Adding the edge {} -> {}'' g;
            g2 = g1\<lparr>children :=
                      (children g1)(comp_name := dict_set req_name (children g1 comp_name))\<rparr>;
            g3 = g2\<lparr>parents :=
                      (parents g2)(req_name := dict_set comp_name (parents g2 req_name))\<rparr>
        in init_edges_loop dependencies g3)"

definition init_edges :: "(string \<times> string) list \<Rightarrow> DependencyGraph \<Rightarrow> error + DependencyGraph" where
  "init_edges dependencies g =
     (case init_edges_loop dependencies (trace_enter 1 ''init_edges'' g) of
        Inl e \<Rightarrow> Inl e
      | Inr g1 \<Rightarrow>
          let root_names = filter (\<lambda>name. parents g1 name = []) (nodesByName g1);
              g2 = vprint 2 ''Initial root nodes: '' g1;
              g3 = g2\<lparr>rootsByName := fold dict_set root_names (rootsByName g2)\<rparr>
          in Inr (trace_exit 1 ''init_edges'' g3))"

subsection \<open>Cycle check and topological order\<close>

text \<open>
  The traversal state next to the graph: \<open>nodeColorByName\<close> and \<open>indegreeByName\<close>.
  Both dictionaries are created with exactly the keys of \<open>nodesByName\<close> and keep them,
  so a lookup raises KeyError exactly for a name that is not a key of \<open>nodesByName\<close>.
\<close>

type_synonym colors = "string \<Rightarrow> DependencyColor"

type_synonym indegrees = "string \<Rightarrow> int"

text \<open>
  The \<open>for\<close> loop over \<open>root.children.items()\<close> in \<open>init_check_for_cycles_roots\<close>.
  It changes the indegrees, the order, the queue \<open>roots\<close> and
  \<open>childrenToBeDeletedByName\<close>; the colours and the children are only read.
\<close>

fun scan_children ::
  "colors \<Rightarrow> string list \<Rightarrow> DependencyGraph \<times> indegrees \<times> string list \<times> string list \<Rightarrow>
   error + (DependencyGraph \<times> indegrees \<times> string list \<times> string list)" where
  "scan_children col [] st = Inr st"
| "scan_children col (child_name # cs) (g, ind, roots, to_delete) =
     (if child_name \<notin> set (nodesByName g) then Inl KeyError
      else case col child_name of
        WHITE \<Rightarrow>
          (let ind1 = ind(child_name := ind child_name - 1) in
           if ind1 child_name = 0
           then scan_children col cs
                  (g\<lparr>start_tsorted_names := start_tsorted_names g @ [child_name]\<rparr>,
                   ind1, roots @ [child_name], to_delete)
           else scan_children col cs (g, ind1, roots, to_delete))
      | GRAY \<Rightarrow>
          (if is_strict g then Inl DependencyCycleException
           else scan_children col cs
                  (vprint 1 ''Removed back-edge: {} --> {}'' g, ind, roots,
                   dict_set child_name to_delete))
      | BLACK \<Rightarrow> scan_children col cs (g, ind, roots, to_delete))"

text \<open>The loop that unlinks the children collected in \<open>childrenToBeDeletedByName\<close>.\<close>

fun unlink_children :: "string \<Rightarrow> string list \<Rightarrow> DependencyGraph \<Rightarrow> error + DependencyGraph" where
  "unlink_children root [] g = Inr g"
| "unlink_children root (child_name # cs) g =
     (case dict_del root (parents g child_name) of
        Inl e \<Rightarrow> Inl e
      | Inr ps \<Rightarrow>
          let g1 = g\<lparr>parents := (parents g)(child_name := ps)\<rparr> in
          (case dict_del child_name (children g1 root) of
             Inl e \<Rightarrow> Inl e
           | Inr chs \<Rightarrow>
               unlink_children root cs
                 (g1\<lparr>children := (children g1)(root := chs),
                     rejected_dependencies := rejected_dependencies g1 @ [(root, child_name)]\<rparr>)))"

lemma scan_children_nodesByName:
  "scan_children col cs (g, ind, roots, del) = Inr (g', ind', roots', del') \<Longrightarrow>
   nodesByName g' = nodesByName g"
  by (induction cs arbitrary: g ind roots del)
     (auto simp: vprint_def Let_def split: if_splits DependencyColor.splits)

lemma unlink_children_nodesByName:
  "unlink_children root cs g = Inr g' \<Longrightarrow> nodesByName g' = nodesByName g"
  by (induction cs arbitrary: g) (auto simp: Let_def split: sum.splits)

text \<open>The number of names whose indegree is still positive: each name the scan puts
  into the queue leaves this set.\<close>

definition pending_count :: "DependencyGraph \<Rightarrow> indegrees \<Rightarrow> nat" where
  "pending_count g ind = card {n \<in> set (nodesByName g). 0 < ind n}"

lemma pending_count_dec:
  assumes "c \<in> set (nodesByName g)" and "ind c = 1"
  shows "Suc (pending_count g (ind(c := 0))) = pending_count g ind"
proof -
  have eq: "{n \<in> set (nodesByName g). 0 < (ind(c := 0)) n} =
            {n \<in> set (nodesByName g). 0 < ind n} - {c}"
    by auto
  have mem: "c \<in> {n \<in> set (nodesByName g). 0 < ind n}"
    using assms by simp
  have fin: "finite {n \<in> set (nodesByName g). 0 < ind n}" by simp
  show ?thesis
    unfolding pending_count_def eq using card_Suc_Diff1 [OF fin mem] by simp
qed

lemma pending_count_mono:
  assumes "\<And>n. ind' n \<le> ind n" and "nodesByName g' = nodesByName g"
  shows "pending_count g' ind' \<le> pending_count g ind"
proof -
  have "{n \<in> set (nodesByName g). 0 < ind' n} \<subseteq> {n \<in> set (nodesByName g). 0 < ind n}"
    using assms(1) by (auto intro: less_le_trans)
  then show ?thesis
    unfolding pending_count_def assms(2) by (intro card_mono) auto
qed

lemma scan_children_measure:
  "scan_children col cs (g, ind, roots, del) = Inr (g', ind', roots', del') \<Longrightarrow>
   length roots' + pending_count g' ind' \<le> length roots + pending_count g ind"
proof (induction cs arbitrary: g ind roots del)
  case Nil
  then show ?case by simp
next
  case (Cons c cs)
  from Cons.prems have cin: "c \<in> set (nodesByName g)"
    by (auto split: if_splits)
  show ?case
  proof (cases "col c")
    case WHITE
    show ?thesis
    proof (cases "ind c = 1")
      case True
      let ?g1 = "g\<lparr>start_tsorted_names := start_tsorted_names g @ [c]\<rparr>"
      from Cons.prems cin WHITE True
      have "scan_children col cs (?g1, ind(c := 0), roots @ [c], del) = Inr (g', ind', roots', del')"
        by simp
      from Cons.IH [OF this]
      have le: "length roots' + pending_count g' ind' \<le>
                length (roots @ [c]) + pending_count ?g1 (ind(c := 0))" .
      have same: "pending_count ?g1 (ind(c := 0)) = pending_count g (ind(c := 0))"
        unfolding pending_count_def by simp
      have len: "length (roots @ [c]) = Suc (length roots)" by simp
      show ?thesis
        using le same len pending_count_dec [of c g ind, OF cin True] by linarith
    next
      case False
      from Cons.prems cin WHITE False
      have "scan_children col cs (g, ind(c := ind c - 1), roots, del) = Inr (g', ind', roots', del')"
        by simp
      from Cons.IH [OF this]
      have "length roots' + pending_count g' ind' \<le> length roots + pending_count g (ind(c := ind c - 1))" .
      moreover have "pending_count g (ind(c := ind c - 1)) \<le> pending_count g ind"
        by (rule pending_count_mono) auto
      ultimately show ?thesis by simp
    qed
  next
    case GRAY
    let ?g1 = "vprint 1 ''Removed back-edge: {} --> {}'' g"
    from Cons.prems cin GRAY
    have "scan_children col cs (?g1, ind, roots, dict_set c del) = Inr (g', ind', roots', del')"
      by (simp split: if_splits)
    from Cons.IH [OF this]
    show ?thesis by (simp add: pending_count_def vprint_def)
  next
    case BLACK
    with Cons.prems cin
    have "scan_children col cs (g, ind, roots, del) = Inr (g', ind', roots', del')"
      by simp
    from Cons.IH [OF this] show ?thesis .
  qed
qed

text \<open>
  The \<open>while roots:\<close> loop of \<open>init_check_for_cycles_roots\<close>: the queue is the first
  argument, \<open>roots.pop(0)\<close> takes its head.
\<close>

function check_loop ::
  "string list \<Rightarrow> DependencyGraph \<times> colors \<times> indegrees \<Rightarrow>
   error + (DependencyGraph \<times> colors \<times> indegrees)" where
  "check_loop [] st = Inr st"
| "check_loop (root # roots) (g, col, ind) =
     (let col1 = col(root := GRAY) in
      case scan_children col1 (children g root) (g, ind, roots, []) of
        Inl e \<Rightarrow> Inl e
      | Inr (g1, ind1, roots1, to_delete) \<Rightarrow>
          (case unlink_children root to_delete g1 of
             Inl e \<Rightarrow> Inl e
           | Inr g2 \<Rightarrow> check_loop roots1 (g2, col1(root := BLACK), ind1)))"
  by pat_completeness auto

termination
proof (relation "measure (\<lambda>(roots, g, col, ind). length roots + pending_count g ind)", goal_cases)
  case 1
  show ?case by simp
next
  case (2 root roots g col ind col1 r g1 r1 ind1 r2 roots1 to_delete g2)
  then have scan: "scan_children (col(root := GRAY)) (children g root) (g, ind, roots, []) =
                   Inr (g1, ind1, roots1, to_delete)"
    by simp
  have "nodesByName g2 = nodesByName g1"
    using 2 unlink_children_nodesByName by blast
  then have "pending_count g2 ind1 = pending_count g1 ind1"
    by (simp add: pending_count_def)
  with scan_children_measure [OF scan] show ?case by simp
qed

text \<open>The first loop of \<open>init_check_for_cycles_roots\<close>: every given root is coloured
  gray and appended to the order.\<close>

fun mark_roots :: "string list \<Rightarrow> DependencyGraph \<times> colors \<Rightarrow> DependencyGraph \<times> colors" where
  "mark_roots [] st = st"
| "mark_roots (root # roots) (g, col) =
     (let g1 = vprint 2 ''Appending %s to the tsorted list of node names'' g in
      mark_roots roots
        (g1\<lparr>start_tsorted_names := start_tsorted_names g1 @ [root]\<rparr>, col(root := GRAY)))"

definition init_check_for_cycles_roots ::
  "string list \<Rightarrow> DependencyGraph \<times> colors \<times> indegrees \<Rightarrow>
   error + (DependencyGraph \<times> colors \<times> indegrees)" where
  "init_check_for_cycles_roots roots st =
     (case st of (g, col, ind) \<Rightarrow>
        (case mark_roots roots (trace_enter 3 ''init_check_for_cycles_roots'' g, col) of
           (g1, col1) \<Rightarrow>
             (case check_loop roots (g1, col1, ind) of
                Inl e \<Rightarrow> Inl e
              | Inr (g2, col2, ind2) \<Rightarrow>
                  Inr (trace_exit 3 ''init_check_for_cycles_roots'' g2, col2, ind2))))"

text \<open>The loop \<open>for root in roots\<close> of \<open>init_check_for_cycles\<close>, one call for each
  initial root.\<close>

fun check_initial_roots ::
  "string list \<Rightarrow> DependencyGraph \<times> colors \<times> indegrees \<Rightarrow>
   error + (DependencyGraph \<times> colors \<times> indegrees)" where
  "check_initial_roots [] st = Inr st"
| "check_initial_roots (root # roots) st =
     (case init_check_for_cycles_roots [root] st of
        Inl e \<Rightarrow> Inl e
      | Inr st' \<Rightarrow> check_initial_roots roots st')"

text \<open>
  The loop over \<open>list(parent_names)\<close> that removes the incoming edges of an unvisited
  node; the list is a copy of the keys taken before the loop.
\<close>

fun strip_parents :: "string \<Rightarrow> string list \<Rightarrow> DependencyGraph \<Rightarrow> error + DependencyGraph" where
  "strip_parents unvisited_node_name [] g = Inr g"
| "strip_parents unvisited_node_name (parent_name # ps) g =
     (case dict_del parent_name (parents g unvisited_node_name) of
        Inl e \<Rightarrow> Inl e
      | Inr ps' \<Rightarrow>
          let g1 = g\<lparr>parents := (parents g)(unvisited_node_name := ps')\<rparr> in
          if parent_name \<notin> set (nodesByName g1) then Inl KeyError
          else
            (case dict_del unvisited_node_name (children g1 parent_name) of
               Inl e \<Rightarrow> Inl e
             | Inr chs \<Rightarrow>
                 let g2 = g1\<lparr>children := (children g1)(parent_name := chs)\<rparr>;
                     g3 = vprint 1 ''Removing cycle-causing edge: {} -> {}'' g2
                 in strip_parents unvisited_node_name ps
                      (g3\<lparr>rejected_dependencies :=
                            rejected_dependencies g3 @ [(parent_name, unvisited_node_name)]\<rparr>)))"

definition unvisited_node_names :: "DependencyGraph \<Rightarrow> colors \<Rightarrow> string list" where
  "unvisited_node_names g col = filter (\<lambda>name. col name = WHITE) (nodesByName g)"

text \<open>One round of the \<open>while\<close> loop of the non-strict branch, for the name popped from
  the end of the list of unvisited names.\<close>

definition remediate_step ::
  "string \<Rightarrow> DependencyGraph \<times> colors \<times> indegrees \<Rightarrow>
   error + (DependencyGraph \<times> colors \<times> indegrees)" where
  "remediate_step unvisited_node_name st =
     (case st of (g, col, ind) \<Rightarrow>
        if unvisited_node_name \<notin> set (nodesByName g) then Inl KeyError
        else
          (case strip_parents unvisited_node_name (parents g unvisited_node_name) g of
             Inl e \<Rightarrow> Inl e
           | Inr g1 \<Rightarrow>
               let g2 = vprint 1 ''Adding root node %s'' g1;
                   g3 = g2\<lparr>rootsByName := dict_set unvisited_node_name (rootsByName g2)\<rparr>
               in init_check_for_cycles_roots [unvisited_node_name] (g3, col, ind)))"

lemma scan_children_roots:
  "scan_children col cs (g, ind, roots, del) = Inr (g', ind', roots', del') \<Longrightarrow>
   set roots \<subseteq> set roots'"
proof (induction cs arbitrary: g ind roots del)
  case Nil
  then show ?case by simp
next
  case (Cons c cs)
  then show ?case
    by (fastforce simp: Let_def split: if_splits DependencyColor.splits)
qed

lemma check_loop_colors:
  "check_loop roots (g, col, ind) = Inr (g', col', ind') \<Longrightarrow>
   nodesByName g' = nodesByName g \<and> (\<forall>n. col' n = WHITE \<longrightarrow> col n = WHITE \<and> n \<notin> set roots)"
proof (induction roots "(g, col, ind)" arbitrary: g col ind rule: check_loop.induct)
  case 1
  then show ?case by simp
next
  case (2 root roots g col ind)
  from "2.prems" obtain g1 ind1 roots1 to_delete g2 where
    scan: "scan_children (col(root := GRAY)) (children g root) (g, ind, roots, []) =
           Inr (g1, ind1, roots1, to_delete)" and
    unl: "unlink_children root to_delete g1 = Inr g2" and
    rec: "check_loop roots1 (g2, (col(root := GRAY))(root := BLACK), ind1) = Inr (g', col', ind')"
    by (auto simp: Let_def split: sum.splits)
  from "2.hyps" [OF refl scan refl refl refl unl rec]
  have ih: "nodesByName g' = nodesByName g2"
           "\<And>n. col' n = WHITE \<Longrightarrow>
                 ((col(root := GRAY))(root := BLACK)) n = WHITE \<and> n \<notin> set roots1"
    by blast+
  have names: "nodesByName g2 = nodesByName g"
    using scan_children_nodesByName [OF scan] unlink_children_nodesByName [OF unl] by simp
  have sub: "set roots \<subseteq> set roots1"
    using scan_children_roots [OF scan] .
  show ?case
  proof (intro conjI allI impI)
    show "nodesByName g' = nodesByName g" using ih(1) names by simp
  next
    fix n assume "col' n = WHITE"
    from ih(2) [OF this] have "n \<noteq> root" "col n = WHITE" "n \<notin> set roots1"
      by (auto split: if_splits)
    then show "col n = WHITE" "n \<notin> set (root # roots)" using sub by auto
  qed
qed

lemma mark_roots_result:
  "mark_roots roots (g, col) = (g', col') \<Longrightarrow>
   nodesByName g' = nodesByName g \<and>
   (\<forall>n. col' n = (if n \<in> set roots then GRAY else col n))"
  by (induction roots arbitrary: g col) (auto simp: Let_def vprint_def)

lemma init_check_for_cycles_roots_colors:
  assumes "init_check_for_cycles_roots roots (g, col, ind) = Inr (g', col', ind')"
  shows "nodesByName g' = nodesByName g"
    and "col' n = WHITE \<Longrightarrow> col n = WHITE \<and> n \<notin> set roots"
proof -
  obtain g1 col1 where mr:
    "mark_roots roots (trace_enter 3 ''init_check_for_cycles_roots'' g, col) = (g1, col1)"
    by (cases "mark_roots roots (trace_enter 3 ''init_check_for_cycles_roots'' g, col)")
  with assms obtain g2 where
    cl: "check_loop roots (g1, col1, ind) = Inr (g2, col', ind')" and
    g': "g' = trace_exit 3 ''init_check_for_cycles_roots'' g2"
    by (auto simp: init_check_for_cycles_roots_def split: sum.splits)
  from mark_roots_result [OF mr]
  have m: "nodesByName g1 = nodesByName g" "\<And>n. col1 n = (if n \<in> set roots then GRAY else col n)"
    by (simp_all add: trace_enter_def vprint_def)
  from check_loop_colors [OF cl]
  have c: "nodesByName g2 = nodesByName g1" "\<And>n. col' n = WHITE \<Longrightarrow> col1 n = WHITE \<and> n \<notin> set roots"
    by blast+
  show "nodesByName g' = nodesByName g"
    using m(1) c(1) g' by (simp add: trace_exit_def vprint_def)
  show "col' n = WHITE \<Longrightarrow> col n = WHITE \<and> n \<notin> set roots"
    using c(2) [of n] m(2) [of n] by (auto split: if_splits)
qed

lemma strip_parents_nodesByName:
  "strip_parents u ps g = Inr g' \<Longrightarrow> nodesByName g' = nodesByName g"
  by (induction ps arbitrary: g)
     (auto simp: Let_def vprint_def split: sum.splits if_splits)

lemma remediate_step_colors:
  assumes "remediate_step u (g, col, ind) = Inr (g', col', ind')"
  shows "nodesByName g' = nodesByName g"
    and "col' n = WHITE \<Longrightarrow> col n = WHITE \<and> n \<noteq> u"
proof -
  from assms obtain g1 where
    sp: "strip_parents u (parents g u) g = Inr g1" and
    ic: "init_check_for_cycles_roots [u]
           ((vprint 1 ''Adding root node %s'' g1)
              \<lparr>rootsByName := dict_set u (rootsByName (vprint 1 ''Adding root node %s'' g1))\<rparr>,
            col, ind) = Inr (g', col', ind')"
    by (auto simp: remediate_step_def Let_def split: if_splits sum.splits)
  from init_check_for_cycles_roots_colors(1) [OF ic] strip_parents_nodesByName [OF sp]
  show "nodesByName g' = nodesByName g" by (simp add: vprint_def)
  from init_check_for_cycles_roots_colors(2) [OF ic, of n]
  show "col' n = WHITE \<Longrightarrow> col n = WHITE \<and> n \<noteq> u" by simp
qed

lemma unvisited_decreases:
  assumes step: "remediate_step (last (unvisited_node_names g col)) (g, col, ind) = Inr (g', col', ind')"
    and ne: "unvisited_node_names g col \<noteq> []"
  shows "length (unvisited_node_names g' col') < length (unvisited_node_names g col)"
proof -
  let ?u = "last (unvisited_node_names g col)"
  have names: "nodesByName g' = nodesByName g"
    using remediate_step_colors(1) [OF step] .
  have imp: "\<And>n. col' n = WHITE \<Longrightarrow> col n = WHITE \<and> n \<noteq> ?u"
    using remediate_step_colors(2) [OF step] .
  have uin: "?u \<in> set (unvisited_node_names g col)"
    using ne by simp
  have "unvisited_node_names g' col' =
        filter (\<lambda>n. col' n = WHITE) (unvisited_node_names g col)"
    unfolding unvisited_node_names_def names filter_filter
    by (rule filter_cong) (use imp in auto)
  moreover have "length (filter (\<lambda>n. col' n = WHITE) (unvisited_node_names g col)) <
                 length (unvisited_node_names g col)"
    by (rule length_filter_less [OF uin]) (use imp in blast)
  ultimately show ?thesis by simp
qed

text \<open>
  The \<open>while len(unvisited_node_names) > 0\<close> loop. The list is the names that are white
  in \<open>nodesByName\<close> order whenever the condition is tested (it is computed so before the
  loop and at the end of every round), and \<open>pop()\<close> takes its last element.
\<close>

function remediate ::
  "DependencyGraph \<times> colors \<times> indegrees \<Rightarrow> error + (DependencyGraph \<times> colors \<times> indegrees)" where
  "remediate (g, col, ind) =
     (if unvisited_node_names g col = [] then Inr (g, col, ind)
      else
        (case remediate_step (last (unvisited_node_names g col)) (g, col, ind) of
           Inl e \<Rightarrow> Inl e
         | Inr st' \<Rightarrow> remediate st'))"
  by pat_completeness auto

termination
proof (relation "measure (\<lambda>(g, col, ind). length (unvisited_node_names g col))", goal_cases)
  case 1
  show ?case by simp
next
  case (2 g col ind st')
  obtain g' col' ind' where st': "st' = (g', col', ind')" by (cases st')
  from 2 unvisited_decreases [of g col ind g' col' ind'] show ?case
    unfolding st' by simp
qed

definition init_check_for_cycles :: "DependencyGraph \<Rightarrow> error + DependencyGraph" where
  "init_check_for_cycles g =
     (let g0 = trace_enter 1 ''init_check_for_cycles'' g;
          roots = rootsByName g0;
          nodeColorByName = (\<lambda>name. WHITE);
          indegreeByName = (\<lambda>name. int (length (parents g0 name)))
      in case check_initial_roots roots (g0, nodeColorByName, indegreeByName) of
           Inl e \<Rightarrow> Inl e
         | Inr (g1, col1, ind1) \<Rightarrow>
             let unvisited = unvisited_node_names g1 col1;
                 g2 = vprint 1 ''Number of unvisited nodes='' g1
             in (case (if unvisited \<noteq> []
                       then (if is_strict g2 then Inl DependencyCycleException
                             else remediate (g2, col1, ind1))
                       else Inr (g2, col1, ind1)) of
                   Inl e \<Rightarrow> Inl e
                 | Inr (g3, col3, ind3) \<Rightarrow>
                     let g4 = vprint 2 ''Leaf nodes: '' g3;
                         g5 = g4\<lparr>leavesByName :=
                                   filter (\<lambda>name. children g4 name = []) (nodesByName g4)\<rparr>
                     in Inr (trace_exit 1 ''init_check_for_cycles'' g5)))"

subsection \<open>The constructor\<close>

text \<open>
  \<open>__init__\<close>. The components are the items of the dictionary \<open>components\<close> in its
  iteration order, the dependencies the pairs of the list \<open>dependencies\<close>. The entry
  banners of the decorator print nothing here, because the attribute \<open>verbosity\<close> is
  not yet set when they run. Fields of the store at names that have no node are empty.
\<close>

definition empty_graph :: "bool \<Rightarrow> int \<Rightarrow> DependencyGraph" where
  "empty_graph strict verb =
     \<lparr>nodesByName = [], attributes = (\<lambda>name. \<lparr>tstart = 0, tstop = 0\<rparr>),
      parents = (\<lambda>name. []), children = (\<lambda>name. []),
      rootsByName = [], leavesByName = [], startStopInfoByName = Map.empty,
      start_tsorted_names = [], rejected_dependencies = [],
      is_strict = strict, verbosity = verb, printed = []\<rparr>"

definition DependencyGraph_init ::
  "(string \<times> component_attributes) list \<Rightarrow> (string \<times> string) list \<Rightarrow> bool \<Rightarrow> int \<Rightarrow>
   error + DependencyGraph" where
  "DependencyGraph_init components dependencies strict verb =
     (case init_nodes components (empty_graph strict verb) of
        Inl e \<Rightarrow> Inl e
      | Inr g1 \<Rightarrow>
          let g2 = vprint_nodes 2 (vprint 2 ''Number of nodes = %d'' g1) in
          (case init_edges dependencies g2 of
             Inl e \<Rightarrow> Inl e
           | Inr g3 \<Rightarrow>
               let g4 = vprint_edges 2 (vprint 2 ''Number of edges = %d'' g3) in
               (case init_check_for_cycles g4 of
                  Inl e \<Rightarrow> Inl e
                | Inr g5 \<Rightarrow>
                    let g6 = (if rejected_dependencies g5 \<noteq> [] \<and> 1 \<le> verb
                              then vprint_edges 2
                                     (vprint 2 ''Number of edges after removing cycles = %d'' g5)
                              else g5);
                        g7 = (if 10 < verb
                              then g6\<lparr>printed := printed g6 @ [''<DependencyGraph>'']\<rparr>
                              else g6)
                    in Inr (trace_exit 1 ''__init__'' g7))))"

section \<open>Start and stop times\<close>

text \<open>The key that \<open>set_startStopInfoByName\<close> hands to \<open>max\<close> and \<open>min\<close>:
  \<open>lambda td: td.days + 86400 * td.seconds\<close>.\<close>

definition td_key :: "timedelta \<Rightarrow> int" where
  "td_key td = td_days td + 86400 * td_seconds td"

text \<open>
  Python's \<open>max(xs, key=f)\<close> and \<open>min(xs, key=f)\<close>: the first element whose key is
  largest (smallest); a later element replaces the current one only when its key is
  strictly larger (smaller). An empty sequence raises ValueError.
\<close>

definition py_max :: "('a \<Rightarrow> int) \<Rightarrow> 'a list \<Rightarrow> error + 'a" where
  "py_max key xs =
     (case xs of
        [] \<Rightarrow> Inl ValueError
      | x # ys \<Rightarrow> Inr (foldl (\<lambda>m y. if key m < key y then y else m) x ys))"

definition py_min :: "('a \<Rightarrow> int) \<Rightarrow> 'a list \<Rightarrow> error + 'a" where
  "py_min key xs =
     (case xs of
        [] \<Rightarrow> Inl ValueError
      | x # ys \<Rightarrow> Inr (foldl (\<lambda>m y. if key y < key m then y else m) x ys))"

text \<open>The entries of \<open>dg_strategy\<close>; every direction other than \<open>STARTUP\<close> takes the
  second branch.\<close>

definition tsorted_names :: "int \<Rightarrow> DependencyGraph \<Rightarrow> string list" where
  "tsorted_names dependency_direction g =
     (if dependency_direction = STARTUP then start_tsorted_names g
      else rev (start_tsorted_names g))"

definition get_parents :: "int \<Rightarrow> DependencyGraph \<Rightarrow> string \<Rightarrow> string list" where
  "get_parents dependency_direction g name =
     (if dependency_direction = STARTUP then parents g name else children g name)"

definition REF_KEY :: "int \<Rightarrow> ss_key" where
  "REF_KEY dependency_direction =
     (if dependency_direction = STARTUP then END_STARTUP_KEY else BEGIN_SHUTDOWN_KEY)"

definition ref_time_extremum :: "int \<Rightarrow> timedelta list \<Rightarrow> error + timedelta" where
  "ref_time_extremum dependency_direction ts =
     (if dependency_direction = STARTUP then py_max td_key ts else py_min td_key ts)"

text \<open>\<open>self.startStopInfoByName[parent_name][REF_KEY]\<close> for each parent name, in order;
  either lookup raises KeyError on a missing key.\<close>

fun parent_reference_times ::
  "(string \<rightharpoonup> (ss_key \<rightharpoonup> timedelta)) \<Rightarrow> ss_key \<Rightarrow> string list \<Rightarrow> error + timedelta list" where
  "parent_reference_times info k [] = Inr []"
| "parent_reference_times info k (parent_name # ps) =
     (case info parent_name of
        None \<Rightarrow> Inl KeyError
      | Some entry \<Rightarrow>
          (case entry k of
             None \<Rightarrow> Inl KeyError
           | Some t \<Rightarrow>
               (case parent_reference_times info k ps of
                  Inl e \<Rightarrow> Inl e
                | Inr ts \<Rightarrow> Inr (t # ts))))"

definition reference_time ::
  "int \<Rightarrow> (string \<rightharpoonup> (ss_key \<rightharpoonup> timedelta)) \<Rightarrow> string list \<Rightarrow> error + timedelta" where
  "reference_time dependency_direction info parent_names =
     (if parent_names = [] then Inr 0
      else
        (case parent_reference_times info (REF_KEY dependency_direction) parent_names of
           Inl e \<Rightarrow> Inl e
         | Inr ts \<Rightarrow> ref_time_extremum dependency_direction ts))"

text \<open>
  The dictionary that the loop body hands to \<open>update\<close>, for a reference time and the
  attributes of the node: the sum or the difference is computed when the dictionary is
  built, and a direction that is neither constant raises ValueError.
\<close>

definition start_stop_update ::
  "int \<Rightarrow> timedelta \<Rightarrow> component_attributes \<Rightarrow> error + (ss_key \<rightharpoonup> timedelta)" where
  "start_stop_update dependency_direction ref attrs =
     (if dependency_direction = STARTUP then
        (case td_add ref (tstart attrs) of
           Inl e \<Rightarrow> Inl e
         | Inr end_time \<Rightarrow> Inr [BEGIN_STARTUP_KEY \<mapsto> ref, END_STARTUP_KEY \<mapsto> end_time])
      else if dependency_direction = SHUTDOWN then
        (case td_sub ref (tstop attrs) of
           Inl e \<Rightarrow> Inl e
         | Inr begin_time \<Rightarrow> Inr [BEGIN_SHUTDOWN_KEY \<mapsto> begin_time, END_SHUTDOWN_KEY \<mapsto> ref])
      else Inl ValueError)"

text \<open>\<open>if name not in self.startStopInfoByName.keys(): self.startStopInfoByName[name] = {}\<close>\<close>

definition ensure_entry ::
  "(string \<rightharpoonup> (ss_key \<rightharpoonup> timedelta)) \<Rightarrow> string \<Rightarrow> (string \<rightharpoonup> (ss_key \<rightharpoonup> timedelta))" where
  "ensure_entry info name = (if name \<in> dom info then info else info(name \<mapsto> Map.empty))"

text \<open>The body of the loop over the names, for one name; \<open>d.update(e)\<close> is \<open>d ++ e\<close>.\<close>

definition set_startStopInfo_step :: "int \<Rightarrow> string \<Rightarrow> DependencyGraph \<Rightarrow> error + DependencyGraph" where
  "set_startStopInfo_step dependency_direction name g =
     (let info = ensure_entry (startStopInfoByName g) name in
      if name \<notin> set (nodesByName g) then Inl KeyError
      else
        (case reference_time dependency_direction info (get_parents dependency_direction g name) of
           Inl e \<Rightarrow> Inl e
         | Inr ref \<Rightarrow>
             (case start_stop_update dependency_direction ref (attributes g name) of
                Inl e \<Rightarrow> Inl e
              | Inr upd \<Rightarrow>
                  Inr (g\<lparr>startStopInfoByName := info(name \<mapsto> the (info name) ++ upd)\<rparr>))))"

fun set_startStopInfo_loop :: "int \<Rightarrow> string list \<Rightarrow> DependencyGraph \<Rightarrow> error + DependencyGraph" where
  "set_startStopInfo_loop dependency_direction [] g = Inr g"
| "set_startStopInfo_loop dependency_direction (name # names) g =
     (case set_startStopInfo_step dependency_direction name g of
        Inl e \<Rightarrow> Inl e
      | Inr g' \<Rightarrow> set_startStopInfo_loop dependency_direction names g')"

definition set_startStopInfoByName :: "int \<Rightarrow> DependencyGraph \<Rightarrow> error + DependencyGraph" where
  "set_startStopInfoByName dependency_direction g =
     (let g0 = trace_enter 2 ''set_startStopInfoByName'' g in
      case set_startStopInfo_loop dependency_direction (tsorted_names dependency_direction g0) g0 of
        Inl e \<Rightarrow> Inl e
      | Inr g' \<Rightarrow> Inr (trace_exit 2 ''set_startStopInfoByName'' g'))"

section \<open>Predicates and example inputs of the statements\<close>

text \<open>The edges of the graph: \<open>(a, b)\<close> when \<open>b\<close> is a key of the children of \<open>a\<close>
  (\<open>a\<close> requires \<open>b\<close>).\<close>

definition edges :: "DependencyGraph \<Rightarrow> (string \<times> string) set" where
  "edges g = {(a, b). b \<in> set (children g a)}"

text \<open>
  The state the dictionaries of the nodes are in between two operations: the keys of
  \<open>nodesByName\<close> are distinct, the children and the parents mirror each other, their
  keys are distinct, and every edge joins two nodes of the graph.
\<close>

definition wf_links :: "DependencyGraph \<Rightarrow> bool" where
  "wf_links g \<longleftrightarrow>
     distinct (nodesByName g) \<and>
     (\<forall>a b. b \<in> set (children g a) \<longleftrightarrow> a \<in> set (parents g b)) \<and>
     (\<forall>a. distinct (children g a) \<and> distinct (parents g a)) \<and>
     (\<forall>a b. b \<in> set (children g a) \<longrightarrow> a \<in> set (nodesByName g) \<and> b \<in> set (nodesByName g))"

text \<open>\<open>self.startStopInfoByName[name][key]\<close>, \<open>None\<close> when either key is missing.\<close>

definition startStopInfo :: "DependencyGraph \<Rightarrow> string \<Rightarrow> ss_key \<Rightarrow> timedelta option" where
  "startStopInfo g name k =
     (case startStopInfoByName g name of None \<Rightarrow> None | Some entry \<Rightarrow> entry k)"

text \<open>Two components that both require a third: one starts in a day, the other in a
  minute.\<close>

definition startup_example :: "error + DependencyGraph" where
  "startup_example =
     (case DependencyGraph_init
             [(''a'', \<lparr>tstart = td_of_days 1, tstop = 0\<rparr>),
              (''b'', \<lparr>tstart = td_minutes 1, tstop = 0\<rparr>),
              (''c'', \<lparr>tstart = 0, tstop = 0\<rparr>)]
             [(''a'', ''c''), (''b'', ''c'')] True 0 of
        Inl e \<Rightarrow> Inl e
      | Inr g \<Rightarrow> set_startStopInfoByName STARTUP g)"

text \<open>A component that requires two others: one stops at once, the other in a minute.\<close>

definition shutdown_example :: "error + DependencyGraph" where
  "shutdown_example =
     (case DependencyGraph_init
             [(''n'', \<lparr>tstart = 0, tstop = 0\<rparr>),
              (''c0'', \<lparr>tstart = 0, tstop = 0\<rparr>),
              (''c1'', \<lparr>tstart = 0, tstop = td_minutes 1\<rparr>)]
             [(''n'', ''c0''), (''n'', ''c1'')] True 0 of
        Inl e \<Rightarrow> Inl e
      | Inr g \<Rightarrow> set_startStopInfoByName SHUTDOWN g)"

text \<open>\<open>before xs a b\<close>: \<open>b\<close> stands in \<open>xs\<close> after the first \<open>a\<close>.\<close>

fun before :: "'a list \<Rightarrow> 'a \<Rightarrow> 'a \<Rightarrow> bool" where
  "before [] a b = False"
| "before (x # xs) a b = (if x = a then b \<in> set xs else before xs a b)"

text \<open>
  The invariant of the traversal, between two rounds of the \<open>while\<close> loop. \<open>queue\<close> is
  the list \<open>roots\<close> of the loop and \<open>pend\<close> the initial roots that the outer loop of
  \<open>init_check_for_cycles\<close> has not started from yet. A name is in the order exactly
  when it is black or in the queue; the parents of a name in the order are black and
  stand before it; the indegree of a name that is neither in the order nor pending
  counts its parents that are not black, and is not zero.
\<close>

definition cc_inv ::
  "DependencyGraph \<Rightarrow> colors \<Rightarrow> indegrees \<Rightarrow> string list \<Rightarrow> string list \<Rightarrow> bool" where
  "cc_inv g col ind queue pend \<longleftrightarrow>
     wf_links g \<and>
     distinct (start_tsorted_names g) \<and> distinct queue \<and> distinct pend \<and>
     set (start_tsorted_names g) = {n. col n = BLACK} \<union> set queue \<and>
     set (start_tsorted_names g) \<subseteq> set (nodesByName g) \<and>
     (\<forall>n\<in>set queue. col n \<noteq> BLACK) \<and>
     (\<forall>n. col n = GRAY \<longrightarrow> n \<in> set queue) \<and>
     (\<forall>n\<in>set (start_tsorted_names g). \<forall>p\<in>set (parents g n). col p = BLACK) \<and>
     (\<forall>n\<in>set (start_tsorted_names g). \<forall>p\<in>set (parents g n).
         before (start_tsorted_names g) p n) \<and>
     (\<forall>n\<in>set (nodesByName g). n \<notin> set (start_tsorted_names g) \<longrightarrow> n \<notin> set pend \<longrightarrow>
         ind n = int (card {p \<in> set (parents g n). col p \<noteq> BLACK}) \<and> ind n \<noteq> 0) \<and>
     (\<forall>n\<in>set pend. n \<in> set (nodesByName g) \<and> n \<notin> set (start_tsorted_names g) \<and>
         parents g n = [])"

text \<open>The fields that the traversal from a root only reads.\<close>

definition same_links :: "DependencyGraph \<Rightarrow> DependencyGraph \<Rightarrow> bool" where
  "same_links g g' \<longleftrightarrow>
     nodesByName g' = nodesByName g \<and> parents g' = parents g \<and> children g' = children g \<and>
     rejected_dependencies g' = rejected_dependencies g \<and> is_strict g' = is_strict g"

text \<open>
  A finalized graph: the links are well formed, the order holds every node once, and
  every parent stands before its child in the order.
\<close>

definition finalized :: "DependencyGraph \<Rightarrow> bool" where
  "finalized g \<longleftrightarrow>
     wf_links g \<and> distinct (start_tsorted_names g) \<and>
     set (start_tsorted_names g) = set (nodesByName g) \<and>
     (\<forall>n. \<forall>p\<in>set (parents g n). before (start_tsorted_names g) p n)"

text \<open>
  The inputs that pass the checks of \<open>add_node\<close> and \<open>init_edges\<close>: no component name
  twice, no dependency twice, and both ends of every dependency are components.
\<close>

definition valid_input ::
  "(string \<times> component_attributes) list \<Rightarrow> (string \<times> string) list \<Rightarrow> bool" where
  "valid_input components dependencies \<longleftrightarrow>
     distinct (map fst components) \<and> distinct dependencies \<and>
     (\<forall>d\<in>set dependencies.
        fst d \<in> set (map fst components) \<and> snd d \<in> set (map fst components))"

text \<open>What \<open>__init__\<close> does after \<open>init_check_for_cycles\<close>: it only prints.\<close>

definition init_epilogue :: "int \<Rightarrow> DependencyGraph \<Rightarrow> DependencyGraph" where
  "init_epilogue verb g5 =
     (let g6 = (if rejected_dependencies g5 \<noteq> [] \<and> 1 \<le> verb
                then vprint_edges 2
                       (vprint 2 ''Number of edges after removing cycles = %d'' g5)
                else g5);
          g7 = (if 10 < verb
                then g6\<lparr>printed := printed g6 @ [''<DependencyGraph>'']\<rparr>
                else g6)
      in trace_exit 1 ''__init__'' g7)"

text \<open>Three small inputs: a chain, a self-loop, and a diamond.\<close>

definition no_time :: component_attributes where
  "no_time = \<lparr>tstart = 0, tstop = 0\<rparr>"

definition diamond_components :: "(string \<times> component_attributes) list" where
  "diamond_components =
     [(''a'', \<lparr>tstart = td_minutes 1, tstop = td_minutes 1\<rparr>),
      (''b'', \<lparr>tstart = td_minutes 2, tstop = td_minutes 2\<rparr>),
      (''c'', \<lparr>tstart = td_minutes 4, tstop = td_minutes 4\<rparr>),
      (''d'', \<lparr>tstart = td_minutes 4, tstop = td_minutes 8\<rparr>)]"

definition diamond_dependencies :: "(string \<times> string) list" where
  "diamond_dependencies = [(''a'', ''b''), (''a'', ''c''), (''b'', ''d''), (''c'', ''d'')]"

definition self_loop_components :: "(string \<times> component_attributes) list" where
  "self_loop_components = [(''a'', \<lparr>tstart = td_minutes 1, tstop = td_minutes 1\<rparr>)]"

definition self_loop_dependencies :: "(string \<times> string) list" where
  "self_loop_dependencies = [(''a'', ''a'')]"

text \<open>\<open>x\<close> is a key of the children of \<open>a\<close> exactly when \<open>a\<close> is a key of the parents
  of \<open>x\<close>.\<close>

definition edge_symmetry :: "DependencyGraph \<Rightarrow> bool" where
  "edge_symmetry g \<longleftrightarrow> (\<forall>a x. x \<in> set (children g a) \<longleftrightarrow> a \<in> set (parents g x))"

text \<open>Graphs for the operations: two nodes without edges, and one node with a
  self-loop.\<close>

definition two_nodes :: DependencyGraph where
  "two_nodes = (empty_graph False 0)\<lparr>nodesByName := [''a'', ''b'']\<rparr>"

definition one_loop :: DependencyGraph where
  "one_loop = (empty_graph False 0)
     \<lparr>nodesByName := [''a''],
      parents := (\<lambda>name. if name = ''a'' then [''a''] else []),
      children := (\<lambda>name. if name = ''a'' then [''a''] else [])\<rparr>"

text \<open>A node is stable when the loop body, run for it, stores what is already stored.\<close>

definition stable :: "int \<Rightarrow> DependencyGraph \<Rightarrow> string \<Rightarrow> bool" where
  "stable d g n \<longleftrightarrow>
     (\<exists>g'. set_startStopInfo_step d n g = Inr g' \<and>
           startStopInfoByName g' = startStopInfoByName g)"

text \<open>\<open>deps_first\<close>: in the list of names, no name stands before one of the nodes it
  is computed from, nor is it one of them.\<close>

definition deps_first :: "int \<Rightarrow> DependencyGraph \<Rightarrow> string list \<Rightarrow> bool" where
  "deps_first d g names \<longleftrightarrow>
     (\<forall>xs n ys. names = xs @ n # ys \<longrightarrow> set (get_parents d g n) \<inter> set (n # ys) = {})"






section \<open>Well-formed links\<close>

lemma wf_linksD:
  assumes "wf_links g"
  shows "distinct (nodesByName g)"
    and "b \<in> set (children g a) \<longleftrightarrow> a \<in> set (parents g b)"
    and "distinct (children g a)" and "distinct (parents g a)"
    and "b \<in> set (children g a) \<Longrightarrow> a \<in> set (nodesByName g)"
    and "b \<in> set (children g a) \<Longrightarrow> b \<in> set (nodesByName g)"
  using assms unfolding wf_links_def by blast+

lemma wf_links_cong:
  assumes "nodesByName g' = nodesByName g" "parents g' = parents g" "children g' = children g"
  shows "wf_links g' = wf_links g"
  unfolding wf_links_def assms ..

lemma wf_links_no_node:
  assumes "wf_links g" "n \<notin> set (nodesByName g)"
  shows "children g n = []" and "parents g n = []"
proof -
  show "children g n = []"
  proof (cases "children g n")
    case (Cons b bs)
    then have "b \<in> set (children g n)" by simp
    with wf_linksD(5) [OF assms(1)] assms(2) show ?thesis by blast
  qed simp
  show "parents g n = []"
  proof (cases "parents g n")
    case (Cons a as)
    then have "a \<in> set (parents g n)" by simp
    then have "n \<in> set (children g a)" using wf_linksD(2) [OF assms(1)] by blast
    with wf_linksD(6) [OF assms(1)] assms(2) show ?thesis by blast
  qed simp
qed

lemma add_node_wf:
  assumes "wf_links g" "add_node name attrs g = Inr g'"
  shows "wf_links g'" and "nodesByName g' = nodesByName g @ [name]"
    and "parents g' = parents g" and "children g' = children g"
    and "start_tsorted_names g' = start_tsorted_names g"
    and "rejected_dependencies g' = rejected_dependencies g"
    and "rootsByName g' = rootsByName g" and "is_strict g' = is_strict g"
proof -
  from assms(2) have fresh: "name \<notin> set (nodesByName g)"
    and g': "g' = g\<lparr>nodesByName := nodesByName g @ [name],
                  attributes := (attributes g)(name := attrs),
                  parents := (parents g)(name := []),
                  children := (children g)(name := [])\<rparr>"
    by (auto simp: add_node_def split: if_splits)
  have p: "(parents g)(name := []) = parents g" and c: "(children g)(name := []) = children g"
    using wf_links_no_node [OF assms(1) fresh] by auto
  show "nodesByName g' = nodesByName g @ [name]" "parents g' = parents g"
    "children g' = children g" "start_tsorted_names g' = start_tsorted_names g"
    "rejected_dependencies g' = rejected_dependencies g"
    "rootsByName g' = rootsByName g" "is_strict g' = is_strict g"
    using p c by (simp_all add: g')
  show "wf_links g'"
    using assms(1) fresh unfolding wf_links_def g' by (simp add: p c)
qed

lemma init_nodes_loop_wf:
  assumes "wf_links g" "init_nodes_loop components g = Inr g'"
  shows "wf_links g' \<and> nodesByName g' = nodesByName g @ map fst components \<and>
         parents g' = parents g \<and> children g' = children g \<and>
         start_tsorted_names g' = start_tsorted_names g \<and>
         rejected_dependencies g' = rejected_dependencies g \<and>
         rootsByName g' = rootsByName g \<and> is_strict g' = is_strict g"
  using assms
proof (induction components arbitrary: g)
  case Nil
  then show ?case by simp
next
  case (Cons x xs)
  obtain name attrs where x: "x = (name, attrs)" by (cases x)
  from Cons.prems(2) obtain g1 where
    a: "add_node name attrs g = Inr g1" and r: "init_nodes_loop xs g1 = Inr g'"
    by (auto simp: x split: sum.splits)
  from Cons.IH [OF add_node_wf(1) [OF Cons.prems(1) a] r] add_node_wf(2-8) [OF Cons.prems(1) a]
  show ?case by (simp add: x)
qed

lemma init_edges_loop_wf:
  assumes "wf_links g" "init_edges_loop dependencies g = Inr g'"
  shows "wf_links g' \<and> nodesByName g' = nodesByName g \<and>
         edges g' = edges g \<union> set dependencies \<and>
         start_tsorted_names g' = start_tsorted_names g \<and>
         rejected_dependencies g' = rejected_dependencies g \<and>
         rootsByName g' = rootsByName g \<and> is_strict g' = is_strict g"
  using assms
proof (induction dependencies arbitrary: g)
  case Nil
  then show ?case by simp
next
  case (Cons d ds)
  obtain c r where d: "d = (c, r)" by (cases d)
  let ?g3 = "g\<lparr>printed := (if 2 \<le> verbosity g then printed g @ [''Adding the edge {} -> {}''] else printed g),
               children := (children g)(c := children g c @ [r]),
               parents := (parents g)(r := parents g r @ [c])\<rparr>"
  from Cons.prems(2) have cin: "c \<in> set (nodesByName g)" and rin: "r \<in> set (nodesByName g)"
    and new: "r \<notin> set (children g c)"
    by (auto simp: d split: if_splits)
  then have newp: "c \<notin> set (parents g r)"
    using wf_linksD(2) [OF Cons.prems(1)] by blast
  from Cons.prems(2) cin rin new newp have rest: "init_edges_loop ds ?g3 = Inr g'"
    by (simp add: d Let_def vprint_def dict_set_def)
  have wf3: "wf_links ?g3"
    unfolding wf_links_def
  proof (intro conjI allI)
    show "distinct (nodesByName ?g3)" using wf_linksD(1) [OF Cons.prems(1)] by simp
  next
    fix a b
    show "(b \<in> set (children ?g3 a)) = (a \<in> set (parents ?g3 b))"
      using wf_linksD(2) [OF Cons.prems(1), of b a] by auto
    show "b \<in> set (children ?g3 a) \<longrightarrow> a \<in> set (nodesByName ?g3) \<and> b \<in> set (nodesByName ?g3)"
      using wf_linksD(5,6) [OF Cons.prems(1), of b a] cin rin by (auto split: if_splits)
  next
    fix a
    show "distinct (children ?g3 a)"
      using wf_linksD(3) [OF Cons.prems(1), of a] wf_linksD(3) [OF Cons.prems(1), of c] new by simp
    show "distinct (parents ?g3 a)"
      using wf_linksD(4) [OF Cons.prems(1), of a] wf_linksD(4) [OF Cons.prems(1), of r] newp by simp
  qed
  have e3: "edges ?g3 = edges g \<union> {(c, r)}"
    unfolding edges_def by (auto split: if_splits)
  from Cons.IH [OF wf3 rest] e3 show ?case by (simp add: d)
qed

section \<open>The key of the extremum\<close>

text \<open>
  C2, at a failing input. \<open>c\<close> has the parents \<open>a\<close> and \<open>b\<close>; the startup of \<open>a\<close> ends
  after one day, that of \<open>b\<close> after one minute, and the startup of \<open>c\<close> begins after one
  minute, which is not the maximum of the two: the key \<open>td.days + 86400 * td.seconds\<close>
  ranks one minute (5184000) above one day (1).
\<close>

theorem startup_begin_not_maximum:
  "(case startup_example of
      Inl e \<Rightarrow> False
    | Inr g \<Rightarrow>
       parents g ''c'' = [''a'', ''b''] \<and>
       startStopInfo g ''a'' END_STARTUP_KEY = Some (td_of_days 1) \<and>
       startStopInfo g ''b'' END_STARTUP_KEY = Some (td_minutes 1) \<and>
       startStopInfo g ''c'' BEGIN_STARTUP_KEY = Some (td_minutes 1) \<and>
       td_minutes 1 < max (td_of_days 1) (td_minutes 1))"
  unfolding startup_example_def by code_simp

text \<open>
  C3, at a failing input. \<open>n\<close> has the children \<open>c0\<close> and \<open>c1\<close>; the shutdown of \<open>c0\<close>
  begins at 0, that of \<open>c1\<close> one minute before, and the shutdown of \<open>n\<close> ends at 0, which
  is not the minimum of the two: the key ranks minus one minute (days -1, seconds 86340)
  above zero.
\<close>

theorem shutdown_end_not_minimum:
  "(case shutdown_example of
      Inl e \<Rightarrow> False
    | Inr g \<Rightarrow>
       children g ''n'' = [''c0'', ''c1''] \<and>
       startStopInfo g ''c0'' BEGIN_SHUTDOWN_KEY = Some 0 \<and>
       startStopInfo g ''c1'' BEGIN_SHUTDOWN_KEY = Some (- td_minutes 1) \<and>
       startStopInfo g ''n'' END_SHUTDOWN_KEY = Some 0 \<and>
       min 0 (- td_minutes 1) < (0::int))"
  unfolding shutdown_example_def by code_simp

section \<open>The traversal invariant\<close>

lemma before_in_set: "before xs a b \<Longrightarrow> a \<in> set xs \<and> b \<in> set xs"
  by (induction xs) (auto split: if_splits)

lemma before_append1: "before xs a b \<Longrightarrow> before (xs @ ys) a b"
  by (induction xs) auto

lemma before_append2: "a \<in> set xs \<Longrightarrow> b \<in> set ys \<Longrightarrow> before (xs @ ys) a b"
  by (induction xs) auto

lemma before_irrefl: "distinct xs \<Longrightarrow> \<not> before xs a a"
  by (induction xs) auto

lemma before_trans:
  "distinct xs \<Longrightarrow> before xs a b \<Longrightarrow> before xs b c \<Longrightarrow> before xs a c"
proof (induction xs)
  case Nil
  then show ?case by simp
next
  case (Cons x xs)
  show ?case
  proof (cases "x = a")
    case True
    with Cons.prems have "b \<in> set xs" "x \<noteq> b" by auto
    with Cons.prems(3) have "before xs b c" by simp
    then show ?thesis using True before_in_set by fastforce
  next
    case False
    with Cons.prems have ab: "before xs a b" by simp
    then have "b \<in> set xs" using before_in_set by fastforce
    with Cons.prems(1) have "x \<noteq> b" by auto
    with Cons.prems(3) have "before xs b c" by simp
    with Cons.IH ab Cons.prems(1) False show ?thesis by simp
  qed
qed

lemma before_nth:
  "before xs a b \<Longrightarrow> \<exists>i j. i < j \<and> j < length xs \<and> xs ! i = a \<and> xs ! j = b"
proof (induction xs)
  case Nil
  then show ?case by simp
next
  case (Cons x xs)
  show ?case
  proof (cases "x = a")
    case True
    with Cons.prems have "b \<in> set xs" by simp
    then obtain k where "k < length xs" "xs ! k = b" by (auto simp: in_set_conv_nth)
    then have "0 < Suc k \<and> Suc k < length (x # xs) \<and> (x # xs) ! 0 = a \<and> (x # xs) ! Suc k = b"
      using True by simp
    then show ?thesis by blast
  next
    case False
    with Cons.prems have "before xs a b" by simp
    from Cons.IH [OF this] obtain i j where "i < j" "j < length xs" "xs ! i = a" "xs ! j = b"
      by blast
    then have "Suc i < Suc j \<and> Suc j < length (x # xs) \<and> (x # xs) ! Suc i = a \<and> (x # xs) ! Suc j = b"
      by simp
    then show ?thesis by blast
  qed
qed

text \<open>When every child is a white node of the graph, the scan decrements each indegree
  once and queues the children that become ready, in order.\<close>

lemma scan_children_white:
  assumes "distinct cs" and "\<forall>c\<in>set cs. c \<in> set (nodesByName g) \<and> col c = WHITE"
  shows "scan_children col cs (g, ind, roots, del) =
         Inr (g\<lparr>start_tsorted_names := start_tsorted_names g @ filter (\<lambda>c. ind c = 1) cs\<rparr>,
              (\<lambda>b. if b \<in> set cs then ind b - 1 else ind b),
              roots @ filter (\<lambda>c. ind c = 1) cs, del)"
  using assms
proof (induction cs arbitrary: g ind roots)
  case Nil
  show ?case by simp
next
  case (Cons c cs)
  have c: "c \<in> set (nodesByName g)" "col c = WHITE" "c \<notin> set cs" "distinct cs"
    and rest: "\<forall>x\<in>set cs. x \<in> set (nodesByName g) \<and> col x = WHITE"
    using Cons.prems by auto
  let ?ind1 = "ind(c := ind c - 1)"
  have f: "filter (\<lambda>x. ?ind1 x = 1) cs = filter (\<lambda>x. ind x = 1) cs"
    by (rule filter_cong) (use c(3) in auto)
  have i: "(\<lambda>b. if b \<in> set cs then ?ind1 b - 1 else ?ind1 b) =
           (\<lambda>b. if b \<in> set (c # cs) then ind b - 1 else ind b)"
    using c(3) by (auto simp: fun_eq_iff)
  show ?case
  proof (cases "ind c = 1")
    case True
    let ?g1 = "g\<lparr>start_tsorted_names := start_tsorted_names g @ [c]\<rparr>"
    have "scan_children col (c # cs) (g, ind, roots, del) =
          scan_children col cs (?g1, ?ind1, roots @ [c], del)"
      using c True by simp
    also have "\<dots> = Inr (?g1\<lparr>start_tsorted_names :=
                               start_tsorted_names ?g1 @ filter (\<lambda>x. ?ind1 x = 1) cs\<rparr>,
                          (\<lambda>b. if b \<in> set cs then ?ind1 b - 1 else ?ind1 b),
                          (roots @ [c]) @ filter (\<lambda>x. ?ind1 x = 1) cs, del)"
      by (rule Cons.IH) (use c rest in auto)
    finally show ?thesis
      unfolding f i using True by simp
  next
    case False
    have "scan_children col (c # cs) (g, ind, roots, del) =
          scan_children col cs (g, ?ind1, roots, del)"
      using c False by simp
    also have "\<dots> = Inr (g\<lparr>start_tsorted_names :=
                               start_tsorted_names g @ filter (\<lambda>x. ?ind1 x = 1) cs\<rparr>,
                          (\<lambda>b. if b \<in> set cs then ?ind1 b - 1 else ?ind1 b),
                          roots @ filter (\<lambda>x. ?ind1 x = 1) cs, del)"
      by (rule Cons.IH) (use c rest in auto)
    finally show ?thesis
      unfolding f i using False by simp
  qed
qed

lemma cc_invD:
  assumes "cc_inv g col ind queue pend"
  shows "wf_links g"
    and "distinct (start_tsorted_names g)" and "distinct queue" and "distinct pend"
    and "set (start_tsorted_names g) = {n. col n = BLACK} \<union> set queue"
    and "set (start_tsorted_names g) \<subseteq> set (nodesByName g)"
    and "\<And>n. n \<in> set queue \<Longrightarrow> col n \<noteq> BLACK"
    and "\<And>n. col n = GRAY \<Longrightarrow> n \<in> set queue"
    and "\<And>n p. n \<in> set (start_tsorted_names g) \<Longrightarrow> p \<in> set (parents g n) \<Longrightarrow> col p = BLACK"
    and "\<And>n p. n \<in> set (start_tsorted_names g) \<Longrightarrow> p \<in> set (parents g n) \<Longrightarrow>
           before (start_tsorted_names g) p n"
    and "\<And>n. n \<in> set (nodesByName g) \<Longrightarrow> n \<notin> set (start_tsorted_names g) \<Longrightarrow> n \<notin> set pend \<Longrightarrow>
           ind n = int (card {p \<in> set (parents g n). col p \<noteq> BLACK}) \<and> ind n \<noteq> 0"
    and "\<And>n. n \<in> set pend \<Longrightarrow> n \<in> set (nodesByName g) \<and> n \<notin> set (start_tsorted_names g) \<and>
           parents g n = []"
  using assms unfolding cc_inv_def by blast+

lemma cc_invI:
  assumes "wf_links g"
    and "distinct (start_tsorted_names g)" and "distinct queue" and "distinct pend"
    and "set (start_tsorted_names g) = {n. col n = BLACK} \<union> set queue"
    and "set (start_tsorted_names g) \<subseteq> set (nodesByName g)"
    and "\<And>n. n \<in> set queue \<Longrightarrow> col n \<noteq> BLACK"
    and "\<And>n. col n = GRAY \<Longrightarrow> n \<in> set queue"
    and "\<And>n p. n \<in> set (start_tsorted_names g) \<Longrightarrow> p \<in> set (parents g n) \<Longrightarrow> col p = BLACK"
    and "\<And>n p. n \<in> set (start_tsorted_names g) \<Longrightarrow> p \<in> set (parents g n) \<Longrightarrow>
           before (start_tsorted_names g) p n"
    and "\<And>n. n \<in> set (nodesByName g) \<Longrightarrow> n \<notin> set (start_tsorted_names g) \<Longrightarrow> n \<notin> set pend \<Longrightarrow>
           ind n = int (card {p \<in> set (parents g n). col p \<noteq> BLACK}) \<and> ind n \<noteq> 0"
    and "\<And>n. n \<in> set pend \<Longrightarrow> n \<in> set (nodesByName g) \<and> n \<notin> set (start_tsorted_names g) \<and>
           parents g n = []"
  shows "cc_inv g col ind queue pend"
  unfolding cc_inv_def using assms by blast

lemma cc_inv_cong:
  assumes "nodesByName g' = nodesByName g" "parents g' = parents g" "children g' = children g"
    "start_tsorted_names g' = start_tsorted_names g"
  shows "cc_inv g' col ind queue pend = cc_inv g col ind queue pend"
  unfolding cc_inv_def assms wf_links_cong [OF assms(1-3)] ..

text \<open>One round of the \<open>while\<close> loop under the invariant: every child of the node taken
  from the queue is white, so nothing is raised and nothing is unlinked.\<close>

lemma cc_inv_step:
  assumes inv: "cc_inv g col ind (r # rest) pend"
  shows "scan_children (col(r := GRAY)) (children g r) (g, ind, rest, []) =
           Inr (g\<lparr>start_tsorted_names :=
                     start_tsorted_names g @ filter (\<lambda>c. ind c = 1) (children g r)\<rparr>,
                (\<lambda>b. if b \<in> set (children g r) then ind b - 1 else ind b),
                rest @ filter (\<lambda>c. ind c = 1) (children g r), [])" (is ?scan)
    and "cc_inv (g\<lparr>start_tsorted_names :=
                     start_tsorted_names g @ filter (\<lambda>c. ind c = 1) (children g r)\<rparr>)
                (col(r := BLACK))
                (\<lambda>b. if b \<in> set (children g r) then ind b - 1 else ind b)
                (rest @ filter (\<lambda>c. ind c = 1) (children g r)) pend" (is ?inv)
proof -
  let ?ts = "start_tsorted_names g"
  let ?cs = "children g r"
  let ?new = "filter (\<lambda>c. ind c = 1) (children g r)"
  let ?g1 = "g\<lparr>start_tsorted_names := ?ts @ ?new\<rparr>"
  let ?col = "col(r := BLACK)"
  let ?ind = "\<lambda>b. if b \<in> set ?cs then ind b - 1 else ind b"
  note I = cc_invD [OF inv]
  note W = wf_linksD [OF I(1)]
  have ts_iff: "\<And>n. n \<in> set ?ts \<longleftrightarrow> col n = BLACK \<or> n = r \<or> n \<in> set rest"
    unfolding I(5) by auto
  have r_ts: "r \<in> set ?ts" using ts_iff by simp
  have r_nb: "col r \<noteq> BLACK" using I(7) by simp
  have r_rest: "r \<notin> set rest" and d_rest: "distinct rest" using I(3) by auto
  have rest_ts: "set rest \<subseteq> set ?ts" using I(5) by auto
  have cs_par: "\<And>c. c \<in> set ?cs \<longleftrightarrow> r \<in> set (parents g c)" using W(2) by blast
  have cs_nts: "\<And>c. c \<in> set ?cs \<Longrightarrow> c \<notin> set ?ts"
    using I(9) cs_par r_nb by blast
  have cs_names: "\<And>c. c \<in> set ?cs \<Longrightarrow> c \<in> set (nodesByName g)"
    using W(6) by blast
  have cs_npend: "\<And>c. c \<in> set ?cs \<Longrightarrow> c \<notin> set pend"
  proof
    fix c assume "c \<in> set ?cs" "c \<in> set pend"
    then have "r \<in> set (parents g c)" "parents g c = []" using cs_par I(12) by blast+
    then show False by simp
  qed
  have cs_white: "\<And>c. c \<in> set ?cs \<Longrightarrow> (col(r := GRAY)) c = WHITE"
  proof -
    fix c assume c: "c \<in> set ?cs"
    then have nts: "c \<notin> set ?ts" by (rule cs_nts)
    then have "c \<noteq> r" using r_ts by blast
    moreover have "col c \<noteq> BLACK" using nts I(5) by blast
    moreover have "col c \<noteq> GRAY" using nts I(5) I(8) by blast
    ultimately show "(col(r := GRAY)) c = WHITE" by (cases "col c") auto
  qed
  show ?scan
    by (rule scan_children_white) (use W(3) cs_names cs_white in auto)
  have new_sub: "set ?new \<subseteq> set ?cs" by auto
  have new_par: "\<And>c p. c \<in> set ?new \<Longrightarrow> p \<in> set (parents g c) \<Longrightarrow> ?col p = BLACK"
  proof -
    fix c p assume c: "c \<in> set ?new" and p: "p \<in> set (parents g c)"
    then have ccs: "c \<in> set ?cs" and one: "ind c = 1" by auto
    let ?S = "{p \<in> set (parents g c). col p \<noteq> BLACK}"
    from I(11) [OF cs_names [OF ccs] cs_nts [OF ccs] cs_npend [OF ccs]] one
    have "card ?S = 1" by simp
    then obtain x where S: "?S = {x}" by (auto simp: card_1_singleton_iff)
    have rS: "r \<in> ?S" using ccs cs_par r_nb by blast
    have "p = r" if "col p \<noteq> BLACK"
    proof -
      from that p have "p \<in> ?S" by simp
      with rS show "p = r" unfolding S by simp
    qed
    then show "?col p = BLACK" by auto
  qed
  show ?inv
  proof (rule cc_invI)
    show "wf_links ?g1" using I(1) wf_links_cong [of ?g1 g] by simp
    show "distinct (start_tsorted_names ?g1)"
      using I(2) W(3) [of r] cs_nts by auto
    show "distinct (rest @ ?new)"
      using d_rest W(3) [of r] cs_nts rest_ts by auto
    show "distinct pend" by (rule I(4))
    show "set (start_tsorted_names ?g1) = {n. ?col n = BLACK} \<union> set (rest @ ?new)"
      using I(5) by auto
    show "set (start_tsorted_names ?g1) \<subseteq> set (nodesByName ?g1)"
      using I(6) cs_names by auto
    show "\<And>n. n \<in> set (rest @ ?new) \<Longrightarrow> ?col n \<noteq> BLACK"
      using I(7) r_rest cs_nts I(5) r_ts by auto
    show "\<And>n. ?col n = GRAY \<Longrightarrow> n \<in> set (rest @ ?new)"
      using I(8) by (auto split: if_splits)
    show "\<And>n p. n \<in> set (start_tsorted_names ?g1) \<Longrightarrow> p \<in> set (parents ?g1 n) \<Longrightarrow> ?col p = BLACK"
    proof -
      fix n p assume n: "n \<in> set (start_tsorted_names ?g1)" and p: "p \<in> set (parents ?g1 n)"
      show "?col p = BLACK"
      proof (cases "n \<in> set ?ts")
        case True
        with p I(9) have "col p = BLACK" by simp
        then show ?thesis by simp
      next
        case False
        with n have "n \<in> set ?new" by simp
        with p new_par show ?thesis by simp
      qed
    qed
    show "\<And>n p. n \<in> set (start_tsorted_names ?g1) \<Longrightarrow> p \<in> set (parents ?g1 n) \<Longrightarrow>
            before (start_tsorted_names ?g1) p n"
    proof -
      fix n p assume n: "n \<in> set (start_tsorted_names ?g1)" and p: "p \<in> set (parents ?g1 n)"
      show "before (start_tsorted_names ?g1) p n"
      proof (cases "n \<in> set ?ts")
        case True
        with p I(10) have "before ?ts p n" by simp
        then show ?thesis by (simp add: before_append1)
      next
        case False
        with n have nn: "n \<in> set ?new" by simp
        with p new_par have "?col p = BLACK" by simp
        then have "p \<in> set ?ts" using ts_iff by (auto split: if_splits)
        with nn show ?thesis by (simp add: before_append2)
      qed
    qed
    show "\<And>n. n \<in> set (nodesByName ?g1) \<Longrightarrow> n \<notin> set (start_tsorted_names ?g1) \<Longrightarrow>
            n \<notin> set pend \<Longrightarrow>
            ?ind n = int (card {p \<in> set (parents ?g1 n). ?col p \<noteq> BLACK}) \<and> ?ind n \<noteq> 0"
    proof -
      fix n assume n: "n \<in> set (nodesByName ?g1)" "n \<notin> set (start_tsorted_names ?g1)"
        "n \<notin> set pend"
      then have n': "n \<in> set (nodesByName g)" "n \<notin> set ?ts" "n \<notin> set ?new" by auto
      let ?S = "{p \<in> set (parents g n). col p \<noteq> BLACK}"
      have old: "ind n = int (card ?S)" "ind n \<noteq> 0"
        using I(11) [OF n'(1,2) n(3)] by auto
      have S': "{p \<in> set (parents ?g1 n). ?col p \<noteq> BLACK} = ?S - {r}"
        by auto
      show "?ind n = int (card {p \<in> set (parents ?g1 n). ?col p \<noteq> BLACK}) \<and> ?ind n \<noteq> 0"
      proof (cases "n \<in> set ?cs")
        case True
        then have rS: "r \<in> ?S" using cs_par r_nb by blast
        have fin: "finite ?S" by simp
        have c1: "card (?S - {r}) = card ?S - 1"
          using rS fin by (simp add: card_Diff_singleton)
        have "card ?S \<noteq> 0"
          using rS fin by (metis card_0_eq empty_iff)
        then have c2: "1 \<le> card ?S" by linarith
        have "ind n \<noteq> 1" using True n'(3) by simp
        then show ?thesis using old True c1 c2 unfolding S' by auto
      next
        case False
        then have "r \<notin> ?S" using cs_par by blast
        then have "?S - {r} = ?S" by blast
        then show ?thesis using old False unfolding S' by simp
      qed
    qed
    show "\<And>n. n \<in> set pend \<Longrightarrow> n \<in> set (nodesByName ?g1) \<and>
            n \<notin> set (start_tsorted_names ?g1) \<and> parents ?g1 n = []"
      using I(12) cs_npend by auto
  qed
qed

lemma vprint_fields:
  "nodesByName (vprint l m g) = nodesByName g"
  "attributes (vprint l m g) = attributes g"
  "parents (vprint l m g) = parents g"
  "children (vprint l m g) = children g"
  "rootsByName (vprint l m g) = rootsByName g"
  "leavesByName (vprint l m g) = leavesByName g"
  "startStopInfoByName (vprint l m g) = startStopInfoByName g"
  "start_tsorted_names (vprint l m g) = start_tsorted_names g"
  "rejected_dependencies (vprint l m g) = rejected_dependencies g"
  "is_strict (vprint l m g) = is_strict g"
  "verbosity (vprint l m g) = verbosity g"
  by (simp_all add: vprint_def)

lemma trace_fields:
  "nodesByName (trace_enter l m g) = nodesByName g"
  "attributes (trace_enter l m g) = attributes g"
  "parents (trace_enter l m g) = parents g"
  "children (trace_enter l m g) = children g"
  "rootsByName (trace_enter l m g) = rootsByName g"
  "leavesByName (trace_enter l m g) = leavesByName g"
  "startStopInfoByName (trace_enter l m g) = startStopInfoByName g"
  "start_tsorted_names (trace_enter l m g) = start_tsorted_names g"
  "rejected_dependencies (trace_enter l m g) = rejected_dependencies g"
  "is_strict (trace_enter l m g) = is_strict g"
  "verbosity (trace_enter l m g) = verbosity g"
  "nodesByName (trace_exit l m g) = nodesByName g"
  "attributes (trace_exit l m g) = attributes g"
  "parents (trace_exit l m g) = parents g"
  "children (trace_exit l m g) = children g"
  "rootsByName (trace_exit l m g) = rootsByName g"
  "leavesByName (trace_exit l m g) = leavesByName g"
  "startStopInfoByName (trace_exit l m g) = startStopInfoByName g"
  "start_tsorted_names (trace_exit l m g) = start_tsorted_names g"
  "rejected_dependencies (trace_exit l m g) = rejected_dependencies g"
  "is_strict (trace_exit l m g) = is_strict g"
  "verbosity (trace_exit l m g) = verbosity g"
  by (simp_all add: trace_enter_def trace_exit_def vprint_fields)

lemma same_links_trans: "same_links g g' \<Longrightarrow> same_links g' g'' \<Longrightarrow> same_links g g''"
  by (simp add: same_links_def)

lemma check_loop_inv:
  "cc_inv g col ind queue pend \<Longrightarrow>
   \<exists>g' col' ind'. check_loop queue (g, col, ind) = Inr (g', col', ind') \<and>
      cc_inv g' col' ind' [] pend \<and> same_links g g'"
proof (induction queue "(g, col, ind)" arbitrary: g col ind rule: check_loop.induct)
  case 1
  then show ?case by (simp add: same_links_def)
next
  case (2 r rest g col ind)
  let ?new = "filter (\<lambda>c. ind c = 1) (children g r)"
  let ?g1 = "g\<lparr>start_tsorted_names := start_tsorted_names g @ ?new\<rparr>"
  let ?ind = "\<lambda>b. if b \<in> set (children g r) then ind b - 1 else ind b"
  note scan = cc_inv_step(1) [OF "2.prems"]
  have inv1: "cc_inv ?g1 ((col(r := GRAY))(r := BLACK)) ?ind (rest @ ?new) pend"
    using cc_inv_step(2) [OF "2.prems"] by simp
  have unl: "unlink_children r [] ?g1 = Inr ?g1" by simp
  from "2.hyps" [OF refl scan refl refl refl unl inv1]
  obtain g' col' ind' where
    rec: "check_loop (rest @ ?new) (?g1, (col(r := GRAY))(r := BLACK), ?ind) = Inr (g', col', ind')"
    and inv': "cc_inv g' col' ind' [] pend" and sl: "same_links ?g1 g'"
    by blast
  have "check_loop (r # rest) (g, col, ind) = Inr (g', col', ind')"
    using scan rec by simp
  moreover have "same_links g g'" using sl by (simp add: same_links_def)
  ultimately show ?case using inv' by blast
qed

lemma cc_inv_start:
  assumes inv: "cc_inv g col ind [] (u # pend)"
  shows "cc_inv (g\<lparr>start_tsorted_names := start_tsorted_names g @ [u]\<rparr>)
           (col(u := GRAY)) ind [u] pend"
proof -
  let ?ts = "start_tsorted_names g"
  let ?g1 = "g\<lparr>start_tsorted_names := ?ts @ [u]\<rparr>"
  let ?col = "col(u := GRAY)"
  note I = cc_invD [OF inv]
  have ts_iff: "\<And>n. n \<in> set ?ts \<longleftrightarrow> col n = BLACK" unfolding I(5) by simp
  have u: "u \<in> set (nodesByName g)" "u \<notin> set ?ts" "parents g u = []" "u \<notin> set pend"
    using I(12) [of u] I(4) by auto
  have u_nb: "col u \<noteq> BLACK" using u(2) ts_iff by simp
  have black: "\<And>n. ?col n = BLACK \<longleftrightarrow> col n = BLACK" using u_nb by simp
  show ?thesis
  proof (rule cc_invI)
    show "wf_links ?g1" using I(1) wf_links_cong [of ?g1 g] by simp
    show "distinct (start_tsorted_names ?g1)" using I(2) u(2) by simp
    show "distinct [u]" by simp
    show "distinct pend" using I(4) by simp
    show "set (start_tsorted_names ?g1) = {n. ?col n = BLACK} \<union> set [u]"
      unfolding black using ts_iff by auto
    show "set (start_tsorted_names ?g1) \<subseteq> set (nodesByName ?g1)" using I(6) u(1) by simp
    show "\<And>n. n \<in> set [u] \<Longrightarrow> ?col n \<noteq> BLACK" by simp
    show "\<And>n. ?col n = GRAY \<Longrightarrow> n \<in> set [u]" using I(8) by (auto split: if_splits)
    show "\<And>n p. n \<in> set (start_tsorted_names ?g1) \<Longrightarrow> p \<in> set (parents ?g1 n) \<Longrightarrow> ?col p = BLACK"
    proof -
      fix n p assume n: "n \<in> set (start_tsorted_names ?g1)" and p: "p \<in> set (parents ?g1 n)"
      from p u(3) have "n \<noteq> u" by auto
      with n p I(9) have "col p = BLACK" by simp
      then show "?col p = BLACK" unfolding black .
    qed
    show "\<And>n p. n \<in> set (start_tsorted_names ?g1) \<Longrightarrow> p \<in> set (parents ?g1 n) \<Longrightarrow>
            before (start_tsorted_names ?g1) p n"
    proof -
      fix n p assume n: "n \<in> set (start_tsorted_names ?g1)" and p: "p \<in> set (parents ?g1 n)"
      from p u(3) have "n \<noteq> u" by auto
      with n p I(10) have "before ?ts p n" by simp
      then show "before (start_tsorted_names ?g1) p n" by (simp add: before_append1)
    qed
    show "\<And>n. n \<in> set (nodesByName ?g1) \<Longrightarrow> n \<notin> set (start_tsorted_names ?g1) \<Longrightarrow>
            n \<notin> set pend \<Longrightarrow>
            ind n = int (card {p \<in> set (parents ?g1 n). ?col p \<noteq> BLACK}) \<and> ind n \<noteq> 0"
    proof -
      fix n assume "n \<in> set (nodesByName ?g1)" "n \<notin> set (start_tsorted_names ?g1)" "n \<notin> set pend"
      then have "n \<in> set (nodesByName g)" "n \<notin> set ?ts" "n \<notin> set (u # pend)" by auto
      from I(11) [OF this]
      have old: "ind n = int (card {p \<in> set (parents g n). col p \<noteq> BLACK}) \<and> ind n \<noteq> 0" .
      have eq: "{p \<in> set (parents ?g1 n). ?col p \<noteq> BLACK} =
                {p \<in> set (parents g n). col p \<noteq> BLACK}"
        unfolding black by simp
      show "ind n = int (card {p \<in> set (parents ?g1 n). ?col p \<noteq> BLACK}) \<and> ind n \<noteq> 0"
        unfolding eq by (rule old)
    qed
    show "\<And>n. n \<in> set pend \<Longrightarrow> n \<in> set (nodesByName ?g1) \<and>
            n \<notin> set (start_tsorted_names ?g1) \<and> parents ?g1 n = []"
      using I(12) u(4) by auto
  qed
qed

lemma init_check_for_cycles_roots_inv:
  assumes inv: "cc_inv g col ind [] (u # pend)"
  shows "\<exists>g' col' ind'. init_check_for_cycles_roots [u] (g, col, ind) = Inr (g', col', ind') \<and>
           cc_inv g' col' ind' [] pend \<and> same_links g g'"
proof -
  let ?g0 = "vprint 2 ''Appending %s to the tsorted list of node names''
               (trace_enter 3 ''init_check_for_cycles_roots'' g)"
  let ?g1 = "?g0\<lparr>start_tsorted_names := start_tsorted_names ?g0 @ [u]\<rparr>"
  have mr: "mark_roots [u] (trace_enter 3 ''init_check_for_cycles_roots'' g, col) =
            (?g1, col(u := GRAY))"
    by (simp add: Let_def)
  have "cc_inv ?g1 (col(u := GRAY)) ind [u] pend =
        cc_inv (g\<lparr>start_tsorted_names := start_tsorted_names g @ [u]\<rparr>) (col(u := GRAY)) ind [u] pend"
    by (rule cc_inv_cong) (simp_all add: vprint_fields trace_fields)
  with cc_inv_start [OF inv] have "cc_inv ?g1 (col(u := GRAY)) ind [u] pend" by simp
  from check_loop_inv [OF this] obtain g2 col' ind' where
    cl: "check_loop [u] (?g1, col(u := GRAY), ind) = Inr (g2, col', ind')"
    and inv2: "cc_inv g2 col' ind' [] pend" and sl: "same_links ?g1 g2"
    by blast
  let ?g' = "trace_exit 3 ''init_check_for_cycles_roots'' g2"
  have res: "init_check_for_cycles_roots [u] (g, col, ind) = Inr (?g', col', ind')"
    unfolding init_check_for_cycles_roots_def using mr cl by simp
  have "cc_inv ?g' col' ind' [] pend = cc_inv g2 col' ind' [] pend"
    by (rule cc_inv_cong) (simp_all add: trace_fields)
  with inv2 have inv': "cc_inv ?g' col' ind' [] pend" by simp
  have "same_links g ?g'"
    using sl by (simp add: same_links_def vprint_fields trace_fields)
  with res inv' show ?thesis by blast
qed

lemma check_initial_roots_inv:
  "cc_inv g col ind [] pend \<Longrightarrow>
   \<exists>g' col' ind'. check_initial_roots pend (g, col, ind) = Inr (g', col', ind') \<and>
      cc_inv g' col' ind' [] [] \<and> same_links g g'"
proof (induction pend arbitrary: g col ind)
  case Nil
  then show ?case by (simp add: same_links_def)
next
  case (Cons u pend)
  from init_check_for_cycles_roots_inv [OF Cons.prems] obtain g1 col1 ind1 where
    a: "init_check_for_cycles_roots [u] (g, col, ind) = Inr (g1, col1, ind1)"
    and b: "cc_inv g1 col1 ind1 [] pend" and c: "same_links g g1"
    by blast
  from Cons.IH [OF b] obtain g' col' ind' where
    d: "check_initial_roots pend (g1, col1, ind1) = Inr (g', col', ind')"
    and e: "cc_inv g' col' ind' [] []" and f: "same_links g1 g'"
    by blast
  have "check_initial_roots (u # pend) (g, col, ind) = Inr (g', col', ind')"
    using a d by simp
  with e same_links_trans [OF c f] show ?case by blast
qed

text \<open>Stripping the parents \<open>ps\<close> of \<open>u\<close>, each of them linked to \<open>u\<close> both ways:
  no deletion raises, and the links and the rejected pairs change as follows.\<close>

lemma strip_parents_result:
  assumes "distinct ps" and "set ps \<subseteq> set (parents g u)"
    and "\<forall>p\<in>set ps. p \<in> set (nodesByName g) \<and> u \<in> set (children g p)"
  shows "\<exists>g'. strip_parents u ps g = Inr g' \<and> nodesByName g' = nodesByName g \<and>
           parents g' = (parents g)(u := filter (\<lambda>p. p \<notin> set ps) (parents g u)) \<and>
           children g' = (\<lambda>a. if a \<in> set ps then removeAll u (children g a) else children g a) \<and>
           rejected_dependencies g' = rejected_dependencies g @ map (\<lambda>p. (p, u)) ps \<and>
           start_tsorted_names g' = start_tsorted_names g \<and> is_strict g' = is_strict g"
  using assms
proof (induction ps arbitrary: g)
  case Nil
  then show ?case by simp
next
  case (Cons p ps)
  have p: "p \<in> set (parents g u)" "p \<in> set (nodesByName g)" "u \<in> set (children g p)"
    "p \<notin> set ps" "distinct ps"
    using Cons.prems by auto
  let ?g1 = "g\<lparr>parents := (parents g)(u := removeAll p (parents g u))\<rparr>"
  let ?g2 = "?g1\<lparr>children := (children ?g1)(p := removeAll u (children ?g1 p))\<rparr>"
  let ?g3 = "vprint 1 ''Removing cycle-causing edge: {} -> {}'' ?g2"
  let ?g4 = "?g3\<lparr>rejected_dependencies := rejected_dependencies ?g3 @ [(p, u)]\<rparr>"
  have step: "strip_parents u (p # ps) g = strip_parents u ps ?g4"
    using p(1-3) by (simp add: dict_del_def Let_def)
  have pre1: "set ps \<subseteq> set (parents ?g4 u)"
    using Cons.prems(2) p(4) by (auto simp: vprint_fields)
  have pre2: "\<forall>q\<in>set ps. q \<in> set (nodesByName ?g4) \<and> u \<in> set (children ?g4 q)"
    using Cons.prems(3) p(4) by (auto simp: vprint_fields)
  from Cons.IH [OF p(5) pre1 pre2] obtain g' where
    r: "strip_parents u ps ?g4 = Inr g'" and
    n: "nodesByName g' = nodesByName ?g4" and
    pa: "parents g' = (parents ?g4)(u := filter (\<lambda>q. q \<notin> set ps) (parents ?g4 u))" and
    ch: "children g' = (\<lambda>a. if a \<in> set ps then removeAll u (children ?g4 a) else children ?g4 a)" and
    rj: "rejected_dependencies g' = rejected_dependencies ?g4 @ map (\<lambda>q. (q, u)) ps" and
    ts: "start_tsorted_names g' = start_tsorted_names ?g4" and
    st: "is_strict g' = is_strict ?g4"
    by blast
  have f: "filter (\<lambda>q. q \<notin> set ps) (removeAll p (parents g u)) =
           filter (\<lambda>q. q \<notin> set (p # ps)) (parents g u)"
    unfolding removeAll_filter_not_eq filter_filter by (rule filter_cong) auto
  have pa': "parents g' = (parents g)(u := filter (\<lambda>q. q \<notin> set (p # ps)) (parents g u))"
    unfolding pa by (simp add: vprint_fields f)
  have ch': "children g' =
             (\<lambda>a. if a \<in> set (p # ps) then removeAll u (children g a) else children g a)"
    unfolding ch using p(4) by (auto simp: vprint_fields fun_eq_iff)
  have "strip_parents u (p # ps) g = Inr g'" using step r by simp
  moreover have "nodesByName g' = nodesByName g" using n by (simp add: vprint_fields)
  moreover have "rejected_dependencies g' = rejected_dependencies g @ map (\<lambda>q. (q, u)) (p # ps)"
    using rj by (simp add: vprint_fields)
  moreover have "start_tsorted_names g' = start_tsorted_names g" using ts by (simp add: vprint_fields)
  moreover have "is_strict g' = is_strict g" using st by (simp add: vprint_fields)
  ultimately show ?case using pa' ch' by blast
qed

text \<open>Stripping all parents of a node that is not yet in the order keeps the invariant,
  with the node as a new pending root.\<close>

lemma cc_inv_strip:
  assumes inv: "cc_inv g col ind [] []"
    and u: "u \<in> set (nodesByName g)" "u \<notin> set (start_tsorted_names g)"
    and g': "nodesByName g' = nodesByName g" "parents g' = (parents g)(u := [])"
      "children g' = (\<lambda>a. removeAll u (children g a))"
      "start_tsorted_names g' = start_tsorted_names g"
  shows "cc_inv g' col ind [] [u]"
proof -
  note I = cc_invD [OF inv]
  note W = wf_linksD [OF I(1)]
  have wf: "wf_links g'"
    unfolding wf_links_def g'
  proof (intro conjI allI)
    show "distinct (nodesByName g)" by (rule W(1))
  next
    fix a b
    show "(b \<in> set (removeAll u (children g a))) = (a \<in> set (((parents g)(u := [])) b))"
      using W(2) [of b a] by auto
    show "b \<in> set (removeAll u (children g a)) \<longrightarrow>
          a \<in> set (nodesByName g) \<and> b \<in> set (nodesByName g)"
      using W(5,6) [of b a] by auto
  next
    fix a
    show "distinct (removeAll u (children g a))" using W(3) [of a] by (simp add: distinct_removeAll)
    show "distinct (((parents g)(u := [])) a)" using W(4) [of a] by simp
  qed
  show ?thesis
  proof (rule cc_invI)
    show "wf_links g'" by (rule wf)
    show "distinct (start_tsorted_names g')" unfolding g' by (rule I(2))
    show "distinct ([]::string list)" by simp
    show "distinct [u]" by simp
    show "set (start_tsorted_names g') = {n. col n = BLACK} \<union> set []"
      unfolding g' using I(5) by simp
    show "set (start_tsorted_names g') \<subseteq> set (nodesByName g')" unfolding g' by (rule I(6))
    show "\<And>n. n \<in> set [] \<Longrightarrow> col n \<noteq> BLACK" by simp
    show "\<And>n. col n = GRAY \<Longrightarrow> n \<in> set []" using I(8) by simp
    show "\<And>n p. n \<in> set (start_tsorted_names g') \<Longrightarrow> p \<in> set (parents g' n) \<Longrightarrow> col p = BLACK"
      unfolding g' using I(9) by (auto split: if_splits)
    show "\<And>n p. n \<in> set (start_tsorted_names g') \<Longrightarrow> p \<in> set (parents g' n) \<Longrightarrow>
            before (start_tsorted_names g') p n"
      unfolding g' using I(10) by (auto split: if_splits)
    show "\<And>n. n \<in> set (nodesByName g') \<Longrightarrow> n \<notin> set (start_tsorted_names g') \<Longrightarrow>
            n \<notin> set [u] \<Longrightarrow>
            ind n = int (card {p \<in> set (parents g' n). col p \<noteq> BLACK}) \<and> ind n \<noteq> 0"
    proof -
      fix n assume n: "n \<in> set (nodesByName g')" "n \<notin> set (start_tsorted_names g')" "n \<notin> set [u]"
      then have "n \<in> set (nodesByName g)" "n \<notin> set (start_tsorted_names g)" "n \<notin> set []"
        unfolding g' by auto
      from I(11) [OF this]
      have old: "ind n = int (card {p \<in> set (parents g n). col p \<noteq> BLACK}) \<and> ind n \<noteq> 0" .
      have eq: "parents g' n = parents g n" unfolding g' using n(3) by simp
      show "ind n = int (card {p \<in> set (parents g' n). col p \<noteq> BLACK}) \<and> ind n \<noteq> 0"
        unfolding eq by (rule old)
    qed
    show "\<And>n. n \<in> set [u] \<Longrightarrow> n \<in> set (nodesByName g') \<and>
            n \<notin> set (start_tsorted_names g') \<and> parents g' n = []"
      unfolding g' using u by simp
  qed
qed

lemma cc_inv_not_visited:
  assumes "cc_inv g col ind [] []"
  shows "n \<in> set (start_tsorted_names g) \<longleftrightarrow> col n \<noteq> WHITE"
proof -
  note I = cc_invD [OF assms]
  have "col n \<noteq> GRAY" using I(8) [of n] by auto
  moreover have "n \<in> set (start_tsorted_names g) \<longleftrightarrow> col n = BLACK" unfolding I(5) by simp
  ultimately show ?thesis by (cases "col n") auto
qed

lemma remediate_step_inv:
  assumes inv: "cc_inv g col ind [] []"
    and u: "u \<in> set (nodesByName g)" "u \<notin> set (start_tsorted_names g)"
  shows "\<exists>g' col' ind'. remediate_step u (g, col, ind) = Inr (g', col', ind') \<and>
           cc_inv g' col' ind' [] [] \<and> nodesByName g' = nodesByName g \<and>
           is_strict g' = is_strict g \<and>
           edges g' \<union> set (rejected_dependencies g') = edges g \<union> set (rejected_dependencies g)"
proof -
  note I = cc_invD [OF inv]
  note W = wf_linksD [OF I(1)]
  have pre: "\<forall>p\<in>set (parents g u). p \<in> set (nodesByName g) \<and> u \<in> set (children g p)"
    using W(2) W(5) by blast
  from strip_parents_result [OF W(4) [of u] subset_refl pre] obtain g1 where
    sp: "strip_parents u (parents g u) g = Inr g1" and
    n1: "nodesByName g1 = nodesByName g" and
    pa1: "parents g1 = (parents g)(u := filter (\<lambda>p. p \<notin> set (parents g u)) (parents g u))" and
    ch1: "children g1 = (\<lambda>a. if a \<in> set (parents g u) then removeAll u (children g a)
                               else children g a)" and
    rj1: "rejected_dependencies g1 = rejected_dependencies g @ map (\<lambda>p. (p, u)) (parents g u)" and
    ts1: "start_tsorted_names g1 = start_tsorted_names g" and
    st1: "is_strict g1 = is_strict g"
    by blast
  have "filter (\<lambda>p. p \<notin> set (parents g u)) (parents g u) = []"
    by (simp add: filter_empty_conv)
  then have pa: "parents g1 = (parents g)(u := [])" using pa1 by simp
  have ch: "children g1 = (\<lambda>a. removeAll u (children g a))"
  proof
    fix a
    show "children g1 a = removeAll u (children g a)"
    proof (cases "a \<in> set (parents g u)")
      case True
      then show ?thesis by (simp add: ch1)
    next
      case False
      then have "u \<notin> set (children g a)" using W(2) by blast
      then show ?thesis using False by (simp add: ch1)
    qed
  qed
  let ?g2 = "vprint 1 ''Adding root node %s'' g1"
  let ?g3 = "?g2\<lparr>rootsByName := dict_set u (rootsByName ?g2)\<rparr>"
  have "cc_inv ?g3 col ind [] [u]"
    by (rule cc_inv_strip [OF inv u]) (simp_all add: vprint_fields n1 pa ch ts1)
  from init_check_for_cycles_roots_inv [OF this] obtain g' col' ind' where
    ic: "init_check_for_cycles_roots [u] (?g3, col, ind) = Inr (g', col', ind')" and
    inv': "cc_inv g' col' ind' [] []" and sl: "same_links ?g3 g'"
    by blast
  have res: "remediate_step u (g, col, ind) = Inr (g', col', ind')"
    unfolding remediate_step_def using u(1) sp ic by (simp add: Let_def)
  from sl have f: "nodesByName g' = nodesByName g" "is_strict g' = is_strict g"
    "children g' = children g1" "rejected_dependencies g' = rejected_dependencies g1"
    by (simp_all add: same_links_def vprint_fields n1 st1)
  have e: "edges g' \<union> set (rejected_dependencies g') = edges g \<union> set (rejected_dependencies g)"
  proof -
    have "edges g' = edges g - {(p, b). b = u}"
      unfolding edges_def f(3) ch by auto
    moreover have "set (rejected_dependencies g') =
                   set (rejected_dependencies g) \<union> (edges g \<inter> {(p, b). b = u})"
      unfolding f(4) rj1 edges_def using W(2) by auto
    ultimately show ?thesis by blast
  qed
  from res inv' f(1,2) e show ?thesis by blast
qed

lemma remediate_inv:
  "cc_inv g col ind [] [] \<Longrightarrow>
   \<exists>g' col' ind'. remediate (g, col, ind) = Inr (g', col', ind') \<and>
      cc_inv g' col' ind' [] [] \<and> unvisited_node_names g' col' = [] \<and>
      nodesByName g' = nodesByName g \<and> is_strict g' = is_strict g \<and>
      edges g' \<union> set (rejected_dependencies g') = edges g \<union> set (rejected_dependencies g)"
proof (induction "(g, col, ind)" arbitrary: g col ind rule: remediate.induct)
  case (1 g col ind)
  show ?case
  proof (cases "unvisited_node_names g col = []")
    case True
    then have "remediate (g, col, ind) = Inr (g, col, ind)" by simp
    with True "1.prems" show ?thesis by blast
  next
    case False
    let ?u = "last (unvisited_node_names g col)"
    have "?u \<in> set (unvisited_node_names g col)" using False by simp
    then have u: "?u \<in> set (nodesByName g)" "col ?u = WHITE"
      by (simp_all add: unvisited_node_names_def)
    then have unts: "?u \<notin> set (start_tsorted_names g)"
      using cc_inv_not_visited [OF "1.prems"] by simp
    from remediate_step_inv [OF "1.prems" u(1) unts] obtain g1 col1 ind1 where
      rs: "remediate_step ?u (g, col, ind) = Inr (g1, col1, ind1)" and
      inv1: "cc_inv g1 col1 ind1 [] []" and
      f1: "nodesByName g1 = nodesByName g" "is_strict g1 = is_strict g"
        "edges g1 \<union> set (rejected_dependencies g1) = edges g \<union> set (rejected_dependencies g)"
      by blast
    from "1.hyps" [OF False rs inv1] obtain g' col' ind' where
      r: "remediate (g1, col1, ind1) = Inr (g', col', ind')" and
      inv': "cc_inv g' col' ind' [] []" and un: "unvisited_node_names g' col' = []" and
      f': "nodesByName g' = nodesByName g1" "is_strict g' = is_strict g1"
        "edges g' \<union> set (rejected_dependencies g') = edges g1 \<union> set (rejected_dependencies g1)"
      by blast
    have "remediate (g, col, ind) = Inr (g', col', ind')"
      using False rs r by (subst remediate.simps) simp
    with inv' un f1 f' show ?thesis by simp
  qed
qed

lemma cc_inv_init:
  assumes wf: "wf_links g" and ts: "start_tsorted_names g = []"
  shows "cc_inv g (\<lambda>name. WHITE) (\<lambda>name. int (length (parents g name))) [] 
           (filter (\<lambda>name. parents g name = []) (nodesByName g))"
proof (rule cc_invI)
  note W = wf_linksD [OF wf]
  show "wf_links g" by (rule wf)
  show "distinct (start_tsorted_names g)" "distinct ([]::string list)" by (simp_all add: ts)
  show "distinct (filter (\<lambda>name. parents g name = []) (nodesByName g))" using W(1) by simp
  show "set (start_tsorted_names g) = {n. (\<lambda>name. WHITE) n = BLACK} \<union> set []" by (simp add: ts)
  show "set (start_tsorted_names g) \<subseteq> set (nodesByName g)" by (simp add: ts)
  show "\<And>n. n \<in> set [] \<Longrightarrow> (\<lambda>name. WHITE) n \<noteq> BLACK" by simp
  show "\<And>n. (\<lambda>name. WHITE) n = GRAY \<Longrightarrow> n \<in> set []" by simp
  show "\<And>n p. n \<in> set (start_tsorted_names g) \<Longrightarrow> p \<in> set (parents g n) \<Longrightarrow>
          (\<lambda>name. WHITE) p = BLACK" by (simp add: ts)
  show "\<And>n p. n \<in> set (start_tsorted_names g) \<Longrightarrow> p \<in> set (parents g n) \<Longrightarrow>
          before (start_tsorted_names g) p n" by (simp add: ts)
  show "\<And>n. n \<in> set (nodesByName g) \<Longrightarrow> n \<notin> set (start_tsorted_names g) \<Longrightarrow>
          n \<notin> set (filter (\<lambda>name. parents g name = []) (nodesByName g)) \<Longrightarrow>
          (\<lambda>name. int (length (parents g name))) n =
            int (card {p \<in> set (parents g n). (\<lambda>name. WHITE) p \<noteq> BLACK}) \<and>
          (\<lambda>name. int (length (parents g name))) n \<noteq> 0"
  proof -
    fix n assume "n \<in> set (nodesByName g)"
      "n \<notin> set (filter (\<lambda>name. parents g name = []) (nodesByName g))"
    then have ne: "parents g n \<noteq> []" by simp
    have "{p \<in> set (parents g n). (\<lambda>name. WHITE) p \<noteq> BLACK} = set (parents g n)" by simp
    then have "card {p \<in> set (parents g n). (\<lambda>name. WHITE) p \<noteq> BLACK} = length (parents g n)"
      using distinct_card [OF W(4) [of n]] by simp
    then show "(\<lambda>name. int (length (parents g name))) n =
            int (card {p \<in> set (parents g n). (\<lambda>name. WHITE) p \<noteq> BLACK}) \<and>
          (\<lambda>name. int (length (parents g name))) n \<noteq> 0"
      using ne by simp
  qed
  show "\<And>n. n \<in> set (filter (\<lambda>name. parents g name = []) (nodesByName g)) \<Longrightarrow>
          n \<in> set (nodesByName g) \<and> n \<notin> set (start_tsorted_names g) \<and> parents g n = []"
    by (simp add: ts)
qed

text \<open>An order in which every edge points forward leaves no cycle.\<close>

lemma topo_acyclic:
  assumes d: "distinct ts" and fwd: "\<And>a b. (a, b) \<in> E \<Longrightarrow> before ts a b"
  shows "acyclic E"
proof (rule acyclicI, rule allI, rule notI)
  fix x assume "(x, x) \<in> E\<^sup>+"
  have "(a, b) \<in> E\<^sup>+ \<Longrightarrow> before ts a b" for a b
  proof (induction rule: trancl_induct)
    case (base y)
    then show ?case by (rule fwd)
  next
    case (step y z)
    from before_trans [OF d step.IH fwd [OF step.hyps(2)]] show ?case .
  qed
  from this [OF \<open>(x, x) \<in> E\<^sup>+\<close>] before_irrefl [OF d] show False by blast
qed

text \<open>When the queue has drained and no initial root is pending, every name left out
  of the order has a parent left out of the order; in an acyclic graph there is none.\<close>

lemma cc_inv_acyclic_complete:
  assumes inv: "cc_inv g col ind [] []" and ac: "acyclic (edges g)"
  shows "unvisited_node_names g col = []"
proof (rule ccontr)
  assume ne: "unvisited_node_names g col \<noteq> []"
  note I = cc_invD [OF inv]
  note W = wf_linksD [OF I(1)]
  let ?W = "set (nodesByName g) - set (start_tsorted_names g)"
  from ne obtain w where "w \<in> set (unvisited_node_names g col)"
    by (cases "unvisited_node_names g col") auto
  then have wW: "w \<in> ?W"
    using cc_inv_not_visited [OF inv] by (auto simp: unvisited_node_names_def)
  have "edges g \<subseteq> set (nodesByName g) \<times> set (nodesByName g)"
    unfolding edges_def using W(5,6) by auto
  then have "finite (edges g)" by (rule finite_subset) simp
  from finite_acyclic_wf [OF this ac] have "wf (edges g)" .
  from wfE_min [OF this wW] obtain z where
    z: "z \<in> ?W" and zmin: "\<And>y. (y, z) \<in> edges g \<Longrightarrow> y \<notin> ?W"
    by blast
  let ?S = "{p \<in> set (parents g z). col p \<noteq> BLACK}"
  from z I(11) [of z] have "ind z = int (card ?S)" "ind z \<noteq> 0" by auto
  then have "card ?S \<noteq> 0" by simp
  then have "?S \<noteq> {}" by (metis card.empty)
  then obtain p where p: "p \<in> set (parents g z)" "col p \<noteq> BLACK" by blast
  then have e: "(p, z) \<in> edges g" unfolding edges_def using W(2) by simp
  then have "p \<in> set (nodesByName g)" unfolding edges_def using W(5) by blast
  moreover have "p \<notin> set (start_tsorted_names g)" using p(2) I(5) by simp
  ultimately have "p \<in> ?W" by simp
  with zmin [OF e] show False by simp
qed

section \<open>The constructed graph\<close>

lemma finalized_cong:
  assumes "nodesByName g' = nodesByName g" "parents g' = parents g" "children g' = children g"
    "start_tsorted_names g' = start_tsorted_names g"
  shows "finalized g' = finalized g"
  unfolding finalized_def assms wf_links_cong [OF assms(1-3)] ..

lemma cc_inv_finalized:
  assumes inv: "cc_inv g col ind [] []" and un: "unvisited_node_names g col = []"
  shows "finalized g"
proof -
  note I = cc_invD [OF inv]
  note W = wf_linksD [OF I(1)]
  have all: "n \<in> set (start_tsorted_names g)" if "n \<in> set (nodesByName g)" for n
  proof -
    from un that have "col n \<noteq> WHITE"
      by (auto simp: unvisited_node_names_def filter_empty_conv)
    then show ?thesis using cc_inv_not_visited [OF inv] by simp
  qed
  have "set (start_tsorted_names g) = set (nodesByName g)"
    using I(6) all by blast
  moreover have "before (start_tsorted_names g) p n" if "p \<in> set (parents g n)" for n p
  proof -
    from that have "n \<in> set (children g p)" using W(2) by simp
    then have "n \<in> set (nodesByName g)" using W(6) by blast
    from I(10) [OF all [OF this] that] show ?thesis .
  qed
  ultimately show ?thesis
    unfolding finalized_def using I(1) I(2) by blast
qed

lemma edges_cong: "children g' = children g \<Longrightarrow> edges g' = edges g"
  by (simp add: edges_def)

text \<open>
  \<open>init_check_for_cycles\<close> on a graph whose links are well formed, whose order is empty
  and whose roots are the nodes without parents: it returns a finalized graph, or it
  raises the cycle exception, and then the mode is strict and the edges have a cycle.
\<close>

lemma init_check_for_cycles_cases:
  assumes wf: "wf_links g" and ts: "start_tsorted_names g = []"
    and roots: "rootsByName g = filter (\<lambda>name. parents g name = []) (nodesByName g)"
  shows "(\<exists>g'. init_check_for_cycles g = Inr g' \<and> finalized g' \<and>
            nodesByName g' = nodesByName g \<and> is_strict g' = is_strict g \<and>
            edges g' \<union> set (rejected_dependencies g') = edges g \<union> set (rejected_dependencies g) \<and>
            (is_strict g \<or> acyclic (edges g) \<longrightarrow> same_links g g')) \<or>
         (init_check_for_cycles g = Inl DependencyCycleException \<and> is_strict g \<and>
            \<not> acyclic (edges g))"
proof -
  let ?g0 = "trace_enter 1 ''init_check_for_cycles'' g"
  let ?col = "\<lambda>name::string. WHITE"
  let ?ind = "\<lambda>name. int (length (parents ?g0 name))"
  have wf0: "wf_links ?g0" using wf wf_links_cong [of ?g0 g] by (simp add: trace_fields)
  have "cc_inv ?g0 ?col ?ind [] (filter (\<lambda>name. parents ?g0 name = []) (nodesByName ?g0))"
    by (rule cc_inv_init [OF wf0]) (simp add: trace_fields ts)
  then have "cc_inv ?g0 ?col ?ind [] (rootsByName ?g0)"
    by (simp add: trace_fields roots)
  from check_initial_roots_inv [OF this] obtain g1 col1 ind1 where
    cir: "check_initial_roots (rootsByName ?g0) (?g0, ?col, ?ind) = Inr (g1, col1, ind1)" and
    inv1: "cc_inv g1 col1 ind1 [] []" and sl1: "same_links ?g0 g1"
    by blast
  from sl1 have f1: "nodesByName g1 = nodesByName g" "parents g1 = parents g"
    "children g1 = children g" "rejected_dependencies g1 = rejected_dependencies g"
    "is_strict g1 = is_strict g"
    by (simp_all add: same_links_def trace_fields)
  let ?g2 = "vprint 1 ''Number of unvisited nodes='' g1"
  let ?fin = "\<lambda>g3. trace_exit 1 ''init_check_for_cycles''
                ((vprint 2 ''Leaf nodes: '' g3)
                  \<lparr>leavesByName :=
                     filter (\<lambda>name. children (vprint 2 ''Leaf nodes: '' g3) name = [])
                       (nodesByName (vprint 2 ''Leaf nodes: '' g3))\<rparr>)"
  have fin_fields: "nodesByName (?fin g3) = nodesByName g3" "parents (?fin g3) = parents g3"
    "children (?fin g3) = children g3" "start_tsorted_names (?fin g3) = start_tsorted_names g3"
    "rejected_dependencies (?fin g3) = rejected_dependencies g3" "is_strict (?fin g3) = is_strict g3"
    for g3
    by (simp_all add: trace_fields vprint_fields)
  have inv2: "cc_inv ?g2 col1 ind1 [] []"
    using inv1 cc_inv_cong [of ?g2 g1] by (simp add: vprint_fields)
  have un2: "unvisited_node_names ?g2 col1 = unvisited_node_names g1 col1"
    by (simp add: unvisited_node_names_def vprint_fields)
  show ?thesis
  proof (cases "unvisited_node_names g1 col1 = []")
    case True
    have res: "init_check_for_cycles g = Inr (?fin ?g2)"
      unfolding init_check_for_cycles_def using cir True by (simp add: Let_def)
    have "finalized ?g2" using cc_inv_finalized [OF inv2] True un2 by simp
    then have "finalized (?fin ?g2)"
      using finalized_cong [of "?fin ?g2" ?g2] fin_fields by simp
    moreover have "same_links g (?fin ?g2)"
      unfolding same_links_def fin_fields using f1 by (simp add: vprint_fields)
    moreover from this have
      "edges (?fin ?g2) \<union> set (rejected_dependencies (?fin ?g2)) =
       edges g \<union> set (rejected_dependencies g)"
      "nodesByName (?fin ?g2) = nodesByName g" "is_strict (?fin ?g2) = is_strict g"
      unfolding same_links_def edges_def by simp_all
    ultimately show ?thesis using res by blast
  next
    case False
    have cyc: "\<not> acyclic (edges g)"
    proof
      assume "acyclic (edges g)"
      then have "acyclic (edges g1)" using edges_cong [OF f1(3)] by simp
      from cc_inv_acyclic_complete [OF inv1 this] False show False by simp
    qed
    show ?thesis
    proof (cases "is_strict g")
      case True
      have "init_check_for_cycles g = Inl DependencyCycleException"
        unfolding init_check_for_cycles_def using cir False True f1(5)
        by (simp add: Let_def vprint_fields)
      with True cyc show ?thesis by blast
    next
      case ns: False
      from remediate_inv [OF inv2] obtain g3 col3 ind3 where
        rem: "remediate (?g2, col1, ind1) = Inr (g3, col3, ind3)" and
        inv3: "cc_inv g3 col3 ind3 [] []" and un3: "unvisited_node_names g3 col3 = []" and
        f3: "nodesByName g3 = nodesByName ?g2" "is_strict g3 = is_strict ?g2"
          "edges g3 \<union> set (rejected_dependencies g3) =
           edges ?g2 \<union> set (rejected_dependencies ?g2)"
        by blast
      have res: "init_check_for_cycles g = Inr (?fin g3)"
        unfolding init_check_for_cycles_def using cir False ns f1(5) rem
        by (simp add: Let_def vprint_fields)
      have "finalized (?fin g3)"
        using cc_inv_finalized [OF inv3 un3] finalized_cong [of "?fin g3" g3] fin_fields by simp
      moreover have "nodesByName (?fin g3) = nodesByName g" "is_strict (?fin g3) = is_strict g"
        using f3(1,2) f1(1,5) by (simp_all add: vprint_fields trace_fields)
      moreover have "edges (?fin g3) \<union> set (rejected_dependencies (?fin g3)) =
                     edges g \<union> set (rejected_dependencies g)"
      proof -
        have "edges (?fin g3) = edges g3" by (rule edges_cong) (simp add: fin_fields)
        moreover have "edges ?g2 = edges g"
          unfolding edges_def by (simp add: vprint_fields f1(3))
        ultimately show ?thesis using f3(3) f1(4) by (simp add: trace_fields vprint_fields)
      qed
      ultimately show ?thesis using res ns cyc by blast
    qed
  qed
qed

lemma wf_links_empty: "wf_links (empty_graph strict verb)"
  by (simp add: wf_links_def empty_graph_def)

lemma init_nodes_loop_ok:
  "distinct (map fst components) \<Longrightarrow> set (map fst components) \<inter> set (nodesByName g) = {} \<Longrightarrow>
   \<exists>g'. init_nodes_loop components g = Inr g'"
proof (induction components arbitrary: g)
  case Nil
  then show ?case by simp
next
  case (Cons x xs)
  obtain name attrs where x: "x = (name, attrs)" by (cases x)
  let ?g1 = "g\<lparr>nodesByName := nodesByName g @ [name],
               attributes := (attributes g)(name := attrs),
               parents := (parents g)(name := []),
               children := (children g)(name := [])\<rparr>"
  from Cons.prems have fresh: "name \<notin> set (nodesByName g)" by (auto simp: x)
  then have a: "add_node name attrs g = Inr ?g1" by (simp add: add_node_def)
  have "distinct (map fst xs)" "set (map fst xs) \<inter> set (nodesByName ?g1) = {}"
    using Cons.prems by (auto simp: x)
  from Cons.IH [OF this] obtain g' where "init_nodes_loop xs ?g1 = Inr g'" by blast
  with a show ?case by (simp add: x)
qed

lemma init_nodes_ok:
  assumes "distinct (map fst components)"
  shows "\<exists>g'. init_nodes components (empty_graph strict verb) = Inr g'"
proof -
  have "set (map fst components) \<inter>
        set (nodesByName (trace_enter 1 ''init_nodes'' (empty_graph strict verb))) = {}"
    by (simp add: trace_fields empty_graph_def)
  from init_nodes_loop_ok [OF assms this] show ?thesis
    by (auto simp: init_nodes_def)
qed

lemma init_nodes_props:
  assumes "init_nodes components (empty_graph strict verb) = Inr g'"
  shows "distinct (map fst components)" and "wf_links g'"
    and "nodesByName g' = map fst components" and "edges g' = {}"
    and "start_tsorted_names g' = []" and "rejected_dependencies g' = []"
    and "rootsByName g' = []" and "is_strict g' = strict"
proof -
  let ?g0 = "trace_enter 1 ''init_nodes'' (empty_graph strict verb)"
  from assms obtain g1 where l: "init_nodes_loop components ?g0 = Inr g1"
    and g': "g' = trace_exit 1 ''init_nodes'' g1"
    by (auto simp: init_nodes_def split: sum.splits)
  have wf0: "wf_links ?g0"
    using wf_links_empty wf_links_cong [of ?g0 "empty_graph strict verb"]
    by (simp add: trace_fields)
  from init_nodes_loop_wf [OF wf0 l]
  have p: "wf_links g1" "nodesByName g1 = map fst components" "children g1 = (\<lambda>name. [])"
    "start_tsorted_names g1 = []" "rejected_dependencies g1 = []" "rootsByName g1 = []"
    "is_strict g1 = strict"
    by (simp_all add: trace_fields empty_graph_def)
  show "wf_links g'" using p(1) wf_links_cong [of g' g1] by (simp add: g' trace_fields)
  show "nodesByName g' = map fst components" using p(2) by (simp add: g' trace_fields)
  then show "distinct (map fst components)"
    using wf_linksD(1) [OF \<open>wf_links g'\<close>] by simp
  show "edges g' = {}" using p(3) by (simp add: edges_def g' trace_fields)
  show "start_tsorted_names g' = []" "rejected_dependencies g' = []" "rootsByName g' = []"
    "is_strict g' = strict"
    using p by (simp_all add: g' trace_fields)
qed

lemma init_edges_loop_ok:
  "wf_links g \<Longrightarrow> distinct dependencies \<Longrightarrow>
   \<forall>d\<in>set dependencies. fst d \<in> set (nodesByName g) \<and> snd d \<in> set (nodesByName g) \<Longrightarrow>
   set dependencies \<inter> edges g = {} \<Longrightarrow>
   \<exists>g'. init_edges_loop dependencies g = Inr g'"
proof (induction dependencies arbitrary: g)
  case Nil
  then show ?case by simp
next
  case (Cons d ds)
  obtain c r where d: "d = (c, r)" by (cases d)
  from Cons.prems have ok: "c \<in> set (nodesByName g)" "r \<in> set (nodesByName g)"
    "r \<notin> set (children g c)"
    by (auto simp: d edges_def)
  obtain g3 where one: "init_edges_loop [(c, r)] g = Inr g3"
    using ok by (simp add: Let_def)
  then have step: "init_edges_loop ((c, r) # ds) g = init_edges_loop ds g3"
    using ok by (simp add: Let_def)
  from init_edges_loop_wf [OF Cons.prems(1) one]
  have p: "wf_links g3" "nodesByName g3 = nodesByName g" "edges g3 = edges g \<union> {(c, r)}"
    by simp_all
  have "set ds \<inter> edges g3 = {}" using Cons.prems(2,4) by (auto simp: p(3) d)
  moreover have "\<forall>d\<in>set ds. fst d \<in> set (nodesByName g3) \<and> snd d \<in> set (nodesByName g3)"
    using Cons.prems(3) by (simp add: p(2))
  moreover have "distinct ds" using Cons.prems(2) by simp
  ultimately obtain g' where "init_edges_loop ds g3 = Inr g'"
    using Cons.IH [OF p(1)] by blast
  with step show ?case by (simp add: d)
qed

lemma init_edges_loop_valid:
  "wf_links g \<Longrightarrow> init_edges_loop dependencies g = Inr g' \<Longrightarrow>
   distinct dependencies \<and>
   (\<forall>d\<in>set dependencies. fst d \<in> set (nodesByName g) \<and> snd d \<in> set (nodesByName g)) \<and>
   set dependencies \<inter> edges g = {}"
proof (induction dependencies arbitrary: g)
  case Nil
  then show ?case by simp
next
  case (Cons d ds)
  obtain c r where d: "d = (c, r)" by (cases d)
  from Cons.prems(2) have ok: "c \<in> set (nodesByName g)" "r \<in> set (nodesByName g)"
    "r \<notin> set (children g c)"
    by (auto simp: d split: if_splits)
  obtain g3 where one: "init_edges_loop [(c, r)] g = Inr g3"
    using ok by (simp add: Let_def)
  then have step: "init_edges_loop ((c, r) # ds) g = init_edges_loop ds g3"
    using ok by (simp add: Let_def)
  from init_edges_loop_wf [OF Cons.prems(1) one]
  have p: "wf_links g3" "nodesByName g3 = nodesByName g" "edges g3 = edges g \<union> {(c, r)}"
    by simp_all
  from Cons.prems(2) step have "init_edges_loop ds g3 = Inr g'" by (simp add: d)
  from Cons.IH [OF p(1) this]
  have ih: "distinct ds"
    "\<forall>d\<in>set ds. fst d \<in> set (nodesByName g) \<and> snd d \<in> set (nodesByName g)"
    "set ds \<inter> (edges g \<union> {(c, r)}) = {}"
    by (simp_all add: p)
  have "(c, r) \<notin> edges g" using ok(3) by (simp add: edges_def)
  with ih ok show ?case by (auto simp: d)
qed

lemma fold_dict_set:
  "distinct xs \<Longrightarrow> set xs \<inter> set ys = {} \<Longrightarrow> fold dict_set xs ys = ys @ xs"
  by (induction xs arbitrary: ys) (auto simp: dict_set_def)

lemma init_edges_ok:
  assumes "wf_links g" "distinct dependencies"
    "\<forall>d\<in>set dependencies. fst d \<in> set (nodesByName g) \<and> snd d \<in> set (nodesByName g)"
    "set dependencies \<inter> edges g = {}"
  shows "\<exists>g'. init_edges dependencies g = Inr g'"
proof -
  let ?g0 = "trace_enter 1 ''init_edges'' g"
  have "wf_links ?g0" using assms(1) wf_links_cong [of ?g0 g] by (simp add: trace_fields)
  moreover have "set dependencies \<inter> edges ?g0 = {}"
    using assms(4) by (simp add: edges_def trace_fields)
  ultimately obtain g1 where "init_edges_loop dependencies ?g0 = Inr g1"
    using init_edges_loop_ok [of ?g0 dependencies] assms(2,3) by (auto simp: trace_fields)
  then show ?thesis by (simp add: init_edges_def Let_def)
qed

lemma init_edges_props:
  assumes wf: "wf_links g" and r0: "rootsByName g = []"
    and ie: "init_edges dependencies g = Inr g'"
  shows "distinct dependencies"
    and "\<forall>d\<in>set dependencies. fst d \<in> set (nodesByName g) \<and> snd d \<in> set (nodesByName g)"
    and "set dependencies \<inter> edges g = {}"
    and "wf_links g'" and "nodesByName g' = nodesByName g"
    and "edges g' = edges g \<union> set dependencies"
    and "start_tsorted_names g' = start_tsorted_names g"
    and "rejected_dependencies g' = rejected_dependencies g"
    and "is_strict g' = is_strict g"
    and "rootsByName g' = filter (\<lambda>name. parents g' name = []) (nodesByName g')"
proof -
  let ?g0 = "trace_enter 1 ''init_edges'' g"
  from ie obtain g1 where l: "init_edges_loop dependencies ?g0 = Inr g1"
    and g': "g' = trace_exit 1 ''init_edges''
                   ((vprint 2 ''Initial root nodes: '' g1)
                     \<lparr>rootsByName :=
                        fold dict_set (filter (\<lambda>name. parents g1 name = []) (nodesByName g1))
                          (rootsByName (vprint 2 ''Initial root nodes: '' g1))\<rparr>)"
    by (auto simp: init_edges_def Let_def split: sum.splits)
  have wf0: "wf_links ?g0" using wf wf_links_cong [of ?g0 g] by (simp add: trace_fields)
  from init_edges_loop_valid [OF wf0 l]
  show "distinct dependencies"
    "\<forall>d\<in>set dependencies. fst d \<in> set (nodesByName g) \<and> snd d \<in> set (nodesByName g)"
    "set dependencies \<inter> edges g = {}"
    by (simp_all add: trace_fields edges_def)
  from init_edges_loop_wf [OF wf0 l]
  have p: "wf_links g1" "nodesByName g1 = nodesByName g" "edges g1 = edges g \<union> set dependencies"
    "start_tsorted_names g1 = start_tsorted_names g"
    "rejected_dependencies g1 = rejected_dependencies g" "rootsByName g1 = []"
    "is_strict g1 = is_strict g"
    by (simp_all add: trace_fields edges_def r0)
  have f: "nodesByName g' = nodesByName g1" "parents g' = parents g1" "children g' = children g1"
    "start_tsorted_names g' = start_tsorted_names g1"
    "rejected_dependencies g' = rejected_dependencies g1" "is_strict g' = is_strict g1"
    by (simp_all add: g' trace_fields vprint_fields)
  show "wf_links g'" using p(1) wf_links_cong [OF f(1-3)] by simp
  show "nodesByName g' = nodesByName g" using f(1) p(2) by simp
  show "edges g' = edges g \<union> set dependencies" using edges_cong [OF f(3)] p(3) by simp
  show "start_tsorted_names g' = start_tsorted_names g"
    "rejected_dependencies g' = rejected_dependencies g" "is_strict g' = is_strict g"
    using f p by simp_all
  have "distinct (filter (\<lambda>name. parents g1 name = []) (nodesByName g1))"
    using wf_linksD(1) [OF p(1)] by simp
  from fold_dict_set [OF this, of "[]"]
  have "rootsByName g' = filter (\<lambda>name. parents g1 name = []) (nodesByName g1)"
    by (simp add: g' trace_fields vprint_fields p(6))
  then show "rootsByName g' = filter (\<lambda>name. parents g' name = []) (nodesByName g')"
    by (simp add: f)
qed

lemma init_nodes_error:
  "init_nodes components g = Inl e \<Longrightarrow> e = ValueError"
proof -
  have "init_nodes_loop components g0 = Inl e \<Longrightarrow> e = ValueError" for g0
    by (induction components arbitrary: g0)
       (auto simp: add_node_def split: sum.splits if_splits)
  then show "init_nodes components g = Inl e \<Longrightarrow> e = ValueError"
    by (auto simp: init_nodes_def split: sum.splits)
qed

lemma init_edges_error:
  "init_edges dependencies g = Inl e \<Longrightarrow>
   e = ValueError \<or> e = DependencyDuplicateDependencyException"
proof -
  have "init_edges_loop dependencies g0 = Inl e \<Longrightarrow>
        e = ValueError \<or> e = DependencyDuplicateDependencyException" for g0
    by (induction dependencies arbitrary: g0) (auto simp: Let_def split: if_splits)
  then show "init_edges dependencies g = Inl e \<Longrightarrow>
             e = ValueError \<or> e = DependencyDuplicateDependencyException"
    by (auto simp: init_edges_def Let_def split: sum.splits)
qed

lemma init_epilogue_fields:
  "nodesByName (init_epilogue verb g) = nodesByName g"
  "attributes (init_epilogue verb g) = attributes g"
  "parents (init_epilogue verb g) = parents g"
  "children (init_epilogue verb g) = children g"
  "rootsByName (init_epilogue verb g) = rootsByName g"
  "leavesByName (init_epilogue verb g) = leavesByName g"
  "startStopInfoByName (init_epilogue verb g) = startStopInfoByName g"
  "start_tsorted_names (init_epilogue verb g) = start_tsorted_names g"
  "rejected_dependencies (init_epilogue verb g) = rejected_dependencies g"
  "is_strict (init_epilogue verb g) = is_strict g"
  "verbosity (init_epilogue verb g) = verbosity g"
  by (simp_all add: init_epilogue_def Let_def trace_fields vprint_fields vprint_edges_def)

lemma DependencyGraph_init_unfold:
  "DependencyGraph_init components dependencies strict verb =
     (case init_nodes components (empty_graph strict verb) of
        Inl e \<Rightarrow> Inl e
      | Inr g1 \<Rightarrow>
          (case init_edges dependencies (vprint_nodes 2 (vprint 2 ''Number of nodes = %d'' g1)) of
             Inl e \<Rightarrow> Inl e
           | Inr g3 \<Rightarrow>
               (case init_check_for_cycles
                       (vprint_edges 2 (vprint 2 ''Number of edges = %d'' g3)) of
                  Inl e \<Rightarrow> Inl e
                | Inr g5 \<Rightarrow> Inr (init_epilogue verb g5))))"
  by (simp add: DependencyGraph_init_def init_epilogue_def Let_def split: sum.splits)

text \<open>
  The outcome of the constructor on a valid input: a finalized graph over the given
  components whose edges, together with the rejected dependencies, are the given
  dependencies; or the cycle exception, in strict mode on a cyclic input only.
\<close>

lemma DependencyGraph_init_cases:
  assumes v: "valid_input components dependencies"
  shows "(\<exists>g. DependencyGraph_init components dependencies strict verb = Inr g \<and>
            finalized g \<and> nodesByName g = map fst components \<and> is_strict g = strict \<and>
            edges g \<union> set (rejected_dependencies g) = set dependencies \<and>
            (strict \<or> acyclic (set dependencies) \<longrightarrow>
               edges g = set dependencies \<and> rejected_dependencies g = [])) \<or>
         (DependencyGraph_init components dependencies strict verb = Inl DependencyCycleException \<and>
            strict \<and> \<not> acyclic (set dependencies))"
proof -
  from v have d: "distinct (map fst components)" "distinct dependencies"
    "\<forall>d\<in>set dependencies. fst d \<in> set (map fst components) \<and> snd d \<in> set (map fst components)"
    by (simp_all add: valid_input_def)
  from init_nodes_ok [OF d(1)] obtain g1 where
    n: "init_nodes components (empty_graph strict verb) = Inr g1" by blast
  note p1 = init_nodes_props [OF n]
  let ?g2 = "vprint_nodes 2 (vprint 2 ''Number of nodes = %d'' g1)"
  have f2: "nodesByName ?g2 = nodesByName g1" "parents ?g2 = parents g1"
    "children ?g2 = children g1" "rootsByName ?g2 = rootsByName g1"
    "start_tsorted_names ?g2 = start_tsorted_names g1"
    "rejected_dependencies ?g2 = rejected_dependencies g1" "is_strict ?g2 = is_strict g1"
    by (simp_all add: vprint_nodes_def vprint_fields)
  have wf2: "wf_links ?g2" using p1(2) wf_links_cong [OF f2(1-3)] by simp
  have e2: "edges ?g2 = {}" using p1(4) edges_cong [OF f2(3)] by simp
  have "\<exists>g3. init_edges dependencies ?g2 = Inr g3"
    by (rule init_edges_ok [OF wf2 d(2)]) (use d(3) in \<open>simp_all add: f2 p1(3) e2\<close>)
  then obtain g3 where e: "init_edges dependencies ?g2 = Inr g3" by blast
  have r2: "rootsByName ?g2 = []" using f2(4) p1(7) by simp
  note p3 = init_edges_props [OF wf2 r2 e]
  let ?g4 = "vprint_edges 2 (vprint 2 ''Number of edges = %d'' g3)"
  have f4: "nodesByName ?g4 = nodesByName g3" "parents ?g4 = parents g3"
    "children ?g4 = children g3" "rootsByName ?g4 = rootsByName g3"
    "start_tsorted_names ?g4 = start_tsorted_names g3"
    "rejected_dependencies ?g4 = rejected_dependencies g3" "is_strict ?g4 = is_strict g3"
    by (simp_all add: vprint_edges_def vprint_fields)
  have wf4: "wf_links ?g4" using p3(4) wf_links_cong [OF f4(1-3)] by simp
  have ts4: "start_tsorted_names ?g4 = []" using f4(5) p3(7) f2(5) p1(5) by simp
  have r4: "rootsByName ?g4 = filter (\<lambda>name. parents ?g4 name = []) (nodesByName ?g4)"
    using p3(10) by (simp add: f4)
  have e4: "edges ?g4 = set dependencies"
    using edges_cong [OF f4(3)] p3(6) e2 by simp
  have rj4: "rejected_dependencies ?g4 = []" using f4(6) p3(8) f2(6) p1(6) by simp
  have st4: "is_strict ?g4 = strict" using f4(7) p3(9) f2(7) p1(8) by simp
  have n4: "nodesByName ?g4 = map fst components" using f4(1) p3(5) f2(1) p1(3) by simp
  from init_check_for_cycles_cases [OF wf4 ts4 r4]
  show ?thesis
  proof (elim disjE exE conjE)
    fix g5
    assume a: "init_check_for_cycles ?g4 = Inr g5" "finalized g5"
      "nodesByName g5 = nodesByName ?g4" "is_strict g5 = is_strict ?g4"
      "edges g5 \<union> set (rejected_dependencies g5) = edges ?g4 \<union> set (rejected_dependencies ?g4)"
      "is_strict ?g4 \<or> acyclic (edges ?g4) \<longrightarrow> same_links ?g4 g5"
    let ?g = "init_epilogue verb g5"
    have res: "DependencyGraph_init components dependencies strict verb = Inr ?g"
      unfolding DependencyGraph_init_unfold using n e a(1) by simp
    have "finalized ?g"
      using a(2) finalized_cong [of ?g g5] by (simp add: init_epilogue_fields)
    moreover have "nodesByName ?g = map fst components" "is_strict ?g = strict"
      using a(3,4) n4 st4 by (simp_all add: init_epilogue_fields)
    moreover have "edges ?g \<union> set (rejected_dependencies ?g) = set dependencies"
      using a(5) e4 rj4 edges_cong [of ?g g5] by (simp add: init_epilogue_fields)
    moreover have "edges ?g = set dependencies \<and> rejected_dependencies ?g = []"
      if "strict \<or> acyclic (set dependencies)"
    proof -
      from that a(6) st4 e4 have "same_links ?g4 g5" by simp
      then have "children g5 = children ?g4" "rejected_dependencies g5 = []"
        using rj4 by (simp_all add: same_links_def)
      then show ?thesis
        using e4 edges_cong [of ?g ?g4] by (simp add: init_epilogue_fields)
    qed
    ultimately show ?thesis using res by blast
  next
    assume a: "init_check_for_cycles ?g4 = Inl DependencyCycleException" "is_strict ?g4"
      "\<not> acyclic (edges ?g4)"
    have "DependencyGraph_init components dependencies strict verb = Inl DependencyCycleException"
      unfolding DependencyGraph_init_unfold using n e a(1) by simp
    then show ?thesis using a(2,3) st4 e4 by simp
  qed
qed

lemma DependencyGraph_init_valid:
  assumes "DependencyGraph_init components dependencies strict verb = Inr g \<or>
           DependencyGraph_init components dependencies strict verb = Inl DependencyCycleException"
  shows "valid_input components dependencies"
proof -
  from assms obtain g1 where
    n: "init_nodes components (empty_graph strict verb) = Inr g1"
    unfolding DependencyGraph_init_unfold
    by (cases "init_nodes components (empty_graph strict verb)") (auto dest: init_nodes_error)
  let ?g2 = "vprint_nodes 2 (vprint 2 ''Number of nodes = %d'' g1)"
  from assms n obtain g3 where e: "init_edges dependencies ?g2 = Inr g3"
    unfolding DependencyGraph_init_unfold
    by (cases "init_edges dependencies ?g2") (auto dest: init_edges_error)
  note p1 = init_nodes_props [OF n]
  have f2: "nodesByName ?g2 = nodesByName g1" "parents ?g2 = parents g1"
    "children ?g2 = children g1" "rootsByName ?g2 = rootsByName g1"
    by (simp_all add: vprint_nodes_def vprint_fields)
  have wf2: "wf_links ?g2" using p1(2) wf_links_cong [OF f2(1-3)] by simp
  have r2: "rootsByName ?g2 = []" using f2(4) p1(7) by simp
  from init_edges_props(1,2) [OF wf2 r2 e] p1(1) p1(3) f2(1)
  show ?thesis by (simp add: valid_input_def)
qed

section \<open>Properties of the constructed graph\<close>

lemma finalized_forward:
  assumes "finalized g" and "(a, b) \<in> edges g"
  shows "before (start_tsorted_names g) a b"
proof -
  from assms(1) have wf: "wf_links g"
    and b: "\<And>n p. p \<in> set (parents g n) \<Longrightarrow> before (start_tsorted_names g) p n"
    unfolding finalized_def by blast+
  from assms(2) have "a \<in> set (parents g b)"
    using wf_linksD(2) [OF wf] by (simp add: edges_def)
  then show ?thesis by (rule b)
qed

lemma finalized_acyclic: "finalized g \<Longrightarrow> acyclic (edges g)"
  by (rule topo_acyclic [of "start_tsorted_names g"])
     (auto simp: finalized_def intro: finalized_forward)

lemma diamond_builds:
  "(case DependencyGraph_init diamond_components diamond_dependencies True 0 of
      Inl e \<Rightarrow> False | Inr g \<Rightarrow> True)"
  by code_simp

text \<open>
  C1. Whenever the constructor returns a graph, in either mode, its edges have no cycle,
  the order \<open>start_tsorted_names\<close> holds every node name exactly once, and for every
  edge \<open>a \<rightarrow> b\<close> of the graph \<open>a\<close> stands in the order at a smaller index than \<open>b\<close>.
\<close>

theorem constructed_order_topological:
  assumes "DependencyGraph_init components dependencies strict verb = Inr g"
  shows "acyclic (edges g) \<and>
         distinct (start_tsorted_names g) \<and>
         set (start_tsorted_names g) = set (nodesByName g) \<and>
         length (start_tsorted_names g) = length (nodesByName g) \<and>
         nodesByName g = map fst components \<and>
         (\<forall>a b. (a, b) \<in> edges g \<longrightarrow>
            (\<exists>i j. i < j \<and> j < length (start_tsorted_names g) \<and>
                   start_tsorted_names g ! i = a \<and> start_tsorted_names g ! j = b))"
proof -
  have v: "valid_input components dependencies"
    using assms DependencyGraph_init_valid by blast
  from DependencyGraph_init_cases [OF v, of strict verb] assms
  have fin: "finalized g" and names: "nodesByName g = map fst components"
    by auto
  from fin have d: "distinct (start_tsorted_names g)"
    and s: "set (start_tsorted_names g) = set (nodesByName g)"
    and dn: "distinct (nodesByName g)"
    unfolding finalized_def wf_links_def by blast+
  have "length (start_tsorted_names g) = length (nodesByName g)"
    using distinct_card [OF d] distinct_card [OF dn] s by simp
  moreover have "\<exists>i j. i < j \<and> j < length (start_tsorted_names g) \<and>
                   start_tsorted_names g ! i = a \<and> start_tsorted_names g ! j = b"
    if "(a, b) \<in> edges g" for a b
    using before_nth [OF finalized_forward [OF fin that]] .
  ultimately show ?thesis
    using finalized_acyclic [OF fin] d s names by blast
qed

theorem constructed_order_topological_witness:
  "\<exists>g. DependencyGraph_init diamond_components diamond_dependencies True 0 = Inr g \<and>
       acyclic (edges g) \<and> distinct (start_tsorted_names g) \<and>
       set (start_tsorted_names g) = set (nodesByName g) \<and>
       nodesByName g = [''a'', ''b'', ''c'', ''d'']"
proof -
  from diamond_builds obtain g where
    g: "DependencyGraph_init diamond_components diamond_dependencies True 0 = Inr g"
    by (cases "DependencyGraph_init diamond_components diamond_dependencies True 0") auto
  from constructed_order_topological [OF g] g show ?thesis
    by (auto simp: diamond_components_def)
qed








text \<open>
  C6 as stated fails: for \<open>a \<rightarrow> b\<close>, \<open>b \<rightarrow> b\<close> the non-strict constructor strips both
  incoming edges of \<open>b\<close>, although removing \<open>b \<rightarrow> b\<close> alone leaves no cycle.
\<close>

theorem excision_not_minimum_counterexample:
  "(case DependencyGraph_init [(''a'', no_time), (''b'', no_time)]
           [(''a'', ''b''), (''b'', ''b'')] False 0 of
      Inl e \<Rightarrow> False
    | Inr g \<Rightarrow> rejected_dependencies g = [(''a'', ''b''), (''b'', ''b'')]) \<and>
   acyclic (set [(''a'', ''b''), (''b'', ''b'')] - {(''b'', ''b'')}) \<and>
   card {(''b'', ''b'')} < card (set [(''a'', ''b''), (''b'', ''b'')])"
proof (intro conjI)
  show "(case DependencyGraph_init [(''a'', no_time), (''b'', no_time)]
           [(''a'', ''b''), (''b'', ''b'')] False 0 of
      Inl e \<Rightarrow> False
    | Inr g \<Rightarrow> rejected_dependencies g = [(''a'', ''b''), (''b'', ''b'')])"
    by code_simp
  have "set [(''a'', ''b''), (''b'', ''b'')] - {(''b'', ''b'')} = {(''a'', ''b'')}"
    by auto
  moreover have "acyclic ({}::(string \<times> string) set)"
    by (simp add: acyclic_def)
  then have "acyclic {(''a'', ''b'')}"
    by (simp add: acyclic_insert)
  ultimately show "acyclic (set [(''a'', ''b''), (''b'', ''b'')] - {(''b'', ''b'')})"
    by (simp only:)
  show "card {(''b'', ''b'')} < card (set [(''a'', ''b''), (''b'', ''b'')])"
    by simp
qed

text \<open>
  C6, amended. The rejected dependencies of a graph that the constructor returns are
  dependencies of the input, and removing them from the input leaves no cycle: they are
  enough to make the graph acyclic, not the fewest that do.
\<close>

theorem excision_sufficient:
  assumes "DependencyGraph_init components dependencies False verb = Inr g"
  shows "set (rejected_dependencies g) \<subseteq> set dependencies \<and>
         acyclic (set dependencies - set (rejected_dependencies g))"
proof -
  have v: "valid_input components dependencies"
    using assms DependencyGraph_init_valid by blast
  from DependencyGraph_init_cases [OF v, of False verb] assms
  have fin: "finalized g" and u: "edges g \<union> set (rejected_dependencies g) = set dependencies"
    by auto
  have "set dependencies - set (rejected_dependencies g) \<subseteq> edges g" using u by blast
  from acyclic_subset [OF finalized_acyclic [OF fin] this] u show ?thesis by blast
qed

theorem excision_sufficient_witness:
  "\<exists>g. DependencyGraph_init self_loop_components self_loop_dependencies False 0 = Inr g \<and>
       set (rejected_dependencies g) \<subseteq> set self_loop_dependencies \<and>
       acyclic (set self_loop_dependencies - set (rejected_dependencies g))"
proof -
  have "(case DependencyGraph_init self_loop_components self_loop_dependencies False 0 of
           Inl e \<Rightarrow> False | Inr g \<Rightarrow> True)"
    by code_simp
  then obtain g where
    g: "DependencyGraph_init self_loop_components self_loop_dependencies False 0 = Inr g"
    by (cases "DependencyGraph_init self_loop_components self_loop_dependencies False 0") auto
  from excision_sufficient [OF g] g show ?thesis by blast
qed

section \<open>Edge symmetry\<close>

lemma edge_symmetry_cong:
  "parents g' = parents g \<Longrightarrow> children g' = children g \<Longrightarrow> edge_symmetry g' = edge_symmetry g"
  by (simp add: edge_symmetry_def)

lemma edge_symmetry_insert:
  assumes "edge_symmetry g"
  shows "edge_symmetry
           (g\<lparr>children := (children g)(c := dict_set r (children g c)),
              parents := (parents g)(r := dict_set c (parents g r))\<rparr>)"
  using assms unfolding edge_symmetry_def dict_set_def by auto

lemma edge_symmetry_remove:
  assumes "edge_symmetry g"
  shows "edge_symmetry
           (g\<lparr>parents := (parents g)(b := removeAll a (parents g b)),
              children := (children g)(a := removeAll b (children g a))\<rparr>)"
  using assms unfolding edge_symmetry_def by auto

lemma init_edges_loop_symmetry:
  "edge_symmetry g \<Longrightarrow> init_edges_loop dependencies g = Inr g' \<Longrightarrow> edge_symmetry g'"
proof (induction dependencies arbitrary: g)
  case Nil
  then show ?case by simp
next
  case (Cons d ds)
  obtain c r where d: "d = (c, r)" by (cases d)
  let ?g1 = "vprint 2 ''Adding the edge {} -> {}'' g"
  let ?g3 = "?g1\<lparr>children := (children ?g1)(c := dict_set r (children ?g1 c)),
                 parents := (parents ?g1)(r := dict_set c (parents ?g1 r))\<rparr>"
  from Cons.prems(2) have rest: "init_edges_loop ds ?g3 = Inr g'"
    by (simp add: d Let_def vprint_fields split: if_splits)
  have "edge_symmetry ?g1"
    using Cons.prems(1) edge_symmetry_cong [of ?g1 g] by (simp add: vprint_fields)
  from Cons.IH [OF edge_symmetry_insert [OF this] rest] show ?case .
qed

lemma unlink_children_symmetry:
  "edge_symmetry g \<Longrightarrow> unlink_children root cs g = Inr g' \<Longrightarrow> edge_symmetry g'"
proof (induction cs arbitrary: g)
  case Nil
  then show ?case by simp
next
  case (Cons c cs)
  let ?g2 = "g\<lparr>parents := (parents g)(c := removeAll root (parents g c)),
               children := (children g)(root := removeAll c (children g root))\<rparr>"
  let ?g3 = "?g2\<lparr>rejected_dependencies := rejected_dependencies g @ [(root, c)]\<rparr>"
  from Cons.prems(2) have rest: "unlink_children root cs ?g3 = Inr g'"
    by (simp add: dict_del_def Let_def split: if_splits)
  have "edge_symmetry ?g3"
    using edge_symmetry_remove [OF Cons.prems(1), where a = root and b = c]
      edge_symmetry_cong [of ?g3 ?g2]
    by simp
  from Cons.IH [OF this rest] show ?case .
qed

lemma strip_parents_symmetry:
  "edge_symmetry g \<Longrightarrow> strip_parents u ps g = Inr g' \<Longrightarrow> edge_symmetry g'"
proof (induction ps arbitrary: g)
  case Nil
  then show ?case by simp
next
  case (Cons p ps)
  let ?g2 = "g\<lparr>parents := (parents g)(u := removeAll p (parents g u)),
               children := (children g)(p := removeAll u (children g p))\<rparr>"
  let ?g3 = "vprint 1 ''Removing cycle-causing edge: {} -> {}'' ?g2"
  let ?g4 = "?g3\<lparr>rejected_dependencies := rejected_dependencies ?g3 @ [(p, u)]\<rparr>"
  from Cons.prems(2) have rest: "strip_parents u ps ?g4 = Inr g'"
    by (simp add: dict_del_def Let_def split: if_splits)
  have "edge_symmetry ?g4"
    using edge_symmetry_remove [OF Cons.prems(1), where a = p and b = u]
      edge_symmetry_cong [of ?g4 ?g2]
    by (simp add: vprint_fields)
  from Cons.IH [OF this rest] show ?case .
qed

lemma two_nodes_symmetry: "edge_symmetry two_nodes"
  by (simp add: edge_symmetry_def two_nodes_def empty_graph_def)

lemma one_loop_symmetry: "edge_symmetry one_loop"
  by (auto simp: edge_symmetry_def one_loop_def empty_graph_def)

text \<open>
  C7. A graph that the constructor returns has symmetric edges, so the children entries
  and the parents entries of its nodes list the same edges; and each of the three
  operations on edges keeps the symmetry: the insertion of the dependencies
  (\<open>init_edges\<close>), the removal of the collected back-edges, and the stripping of the
  incoming edges of an unvisited node.
\<close>

theorem edge_symmetry_maintained:
  "(DependencyGraph_init components dependencies strict verb = Inr g \<longrightarrow>
      edge_symmetry g \<and>
      {(a, x). a \<in> set (nodesByName g) \<and> x \<in> set (children g a)} =
      {(a, x). x \<in> set (nodesByName g) \<and> a \<in> set (parents g x)}) \<and>
   (edge_symmetry g0 \<and> init_edges_loop ds g0 = Inr g1 \<longrightarrow> edge_symmetry g1) \<and>
   (edge_symmetry g0 \<and> unlink_children root cs g0 = Inr g2 \<longrightarrow> edge_symmetry g2) \<and>
   (edge_symmetry g0 \<and> strip_parents u ps g0 = Inr g3 \<longrightarrow> edge_symmetry g3)"
proof (intro conjI impI)
  assume a: "DependencyGraph_init components dependencies strict verb = Inr g"
  have v: "valid_input components dependencies"
    using a DependencyGraph_init_valid by blast
  from DependencyGraph_init_cases [OF v, of strict verb] a
  have "finalized g" by auto
  then have wf: "wf_links g" by (simp add: finalized_def)
  note W = wf_linksD [OF wf]
  show "edge_symmetry g" unfolding edge_symmetry_def using W(2) by blast
  show "{(a, x). a \<in> set (nodesByName g) \<and> x \<in> set (children g a)} =
        {(a, x). x \<in> set (nodesByName g) \<and> a \<in> set (parents g x)}"
    using W(2) W(5) W(6) by blast
next
  assume "edge_symmetry g0 \<and> init_edges_loop ds g0 = Inr g1"
  then show "edge_symmetry g1" using init_edges_loop_symmetry by blast
next
  assume "edge_symmetry g0 \<and> unlink_children root cs g0 = Inr g2"
  then show "edge_symmetry g2" using unlink_children_symmetry by blast
next
  assume "edge_symmetry g0 \<and> strip_parents u ps g0 = Inr g3"
  then show "edge_symmetry g3" using strip_parents_symmetry by blast
qed

lemma one_loop_unlink:
  "(case unlink_children ''a'' [''a''] one_loop of
      Inl e \<Rightarrow> False
    | Inr g \<Rightarrow> children g ''a'' = [] \<and> rejected_dependencies g = [(''a'', ''a'')])"
  by code_simp

lemma one_loop_strip:
  "(case strip_parents ''a'' [''a''] one_loop of
      Inl e \<Rightarrow> False
    | Inr g \<Rightarrow> parents g ''a'' = [] \<and> rejected_dependencies g = [(''a'', ''a'')])"
  by code_simp

lemma two_nodes_insert:
  "(case init_edges_loop [(''a'', ''b'')] two_nodes of
      Inl e \<Rightarrow> False
    | Inr g \<Rightarrow> children g ''a'' = [''b''] \<and> parents g ''b'' = [''a''])"
  by code_simp

theorem edge_symmetry_maintained_witness:
  "(\<exists>g. DependencyGraph_init diamond_components diamond_dependencies True 0 = Inr g \<and>
        edge_symmetry g) \<and>
   (\<exists>g1. init_edges_loop [(''a'', ''b'')] two_nodes = Inr g1 \<and> edge_symmetry g1) \<and>
   (\<exists>g2. unlink_children ''a'' [''a''] one_loop = Inr g2 \<and> edge_symmetry g2) \<and>
   (\<exists>g3. strip_parents ''a'' [''a''] one_loop = Inr g3 \<and> edge_symmetry g3)"
proof -
  from diamond_builds obtain g where
    g: "DependencyGraph_init diamond_components diamond_dependencies True 0 = Inr g"
    by (cases "DependencyGraph_init diamond_components diamond_dependencies True 0") auto
  from two_nodes_insert obtain g1 where
    g1: "init_edges_loop [(''a'', ''b'')] two_nodes = Inr g1"
    by (cases "init_edges_loop [(''a'', ''b'')] two_nodes") auto
  from one_loop_unlink obtain g2 where
    g2: "unlink_children ''a'' [''a''] one_loop = Inr g2"
    by (cases "unlink_children ''a'' [''a''] one_loop") auto
  from one_loop_strip obtain g3 where
    g3: "strip_parents ''a'' [''a''] one_loop = Inr g3"
    by (cases "strip_parents ''a'' [''a''] one_loop") auto
  have a: "edge_symmetry g"
    using edge_symmetry_maintained
      [of diamond_components diamond_dependencies True 0 g two_nodes "[]" two_nodes
          "''a''" "[]" two_nodes "''a''" "[]" two_nodes] g
    by blast
  have b: "edge_symmetry g1"
    using edge_symmetry_maintained
      [of diamond_components diamond_dependencies True 0 g two_nodes "[(''a'', ''b'')]" g1
          "''a''" "[]" two_nodes "''a''" "[]" two_nodes] two_nodes_symmetry g1
    by blast
  have c: "edge_symmetry g2"
    using edge_symmetry_maintained
      [of diamond_components diamond_dependencies True 0 g one_loop "[]" one_loop
          "''a''" "[''a'']" g2 "''a''" "[]" one_loop] one_loop_symmetry g2
    by blast
  have d: "edge_symmetry g3"
    using edge_symmetry_maintained
      [of diamond_components diamond_dependencies True 0 g one_loop "[]" one_loop
          "''a''" "[]" one_loop "''a''" "[''a'']" g3] one_loop_symmetry g3
    by blast
  from g g1 g2 g3 a b c d show ?thesis by blast
qed

section \<open>The schedule propagator\<close>

lemma step_InrD:
  assumes "set_startStopInfo_step d n g = Inr g'"
  obtains ref upd where
    "n \<in> set (nodesByName g)"
    "reference_time d (ensure_entry (startStopInfoByName g) n) (get_parents d g n) = Inr ref"
    "start_stop_update d ref (attributes g n) = Inr upd"
    "g' = g\<lparr>startStopInfoByName :=
              (ensure_entry (startStopInfoByName g) n)
                (n \<mapsto> the (ensure_entry (startStopInfoByName g) n n) ++ upd)\<rparr>"
  using assms unfolding set_startStopInfo_step_def
  by (auto simp: Let_def split: if_splits sum.splits)

lemma step_InrI:
  assumes "n \<in> set (nodesByName g)"
    "reference_time d (ensure_entry (startStopInfoByName g) n) (get_parents d g n) = Inr ref"
    "start_stop_update d ref (attributes g n) = Inr upd"
  shows "set_startStopInfo_step d n g =
         Inr (g\<lparr>startStopInfoByName :=
                  (ensure_entry (startStopInfoByName g) n)
                    (n \<mapsto> the (ensure_entry (startStopInfoByName g) n n) ++ upd)\<rparr>)"
  using assms unfolding set_startStopInfo_step_def by (simp add: Let_def)

lemma step_frame:
  assumes "set_startStopInfo_step d n g = Inr g'"
  shows "g' = g\<lparr>startStopInfoByName := startStopInfoByName g'\<rparr>"
  using assms by (elim step_InrD) simp

lemma loop_frame:
  "set_startStopInfo_loop d ns g = Inr g' \<Longrightarrow> g' = g\<lparr>startStopInfoByName := startStopInfoByName g'\<rparr>"
proof (induction ns arbitrary: g)
  case Nil
  then show ?case by simp
next
  case (Cons n ns)
  from Cons.prems obtain g1 where
    s: "set_startStopInfo_step d n g = Inr g1" and l: "set_startStopInfo_loop d ns g1 = Inr g'"
    by (auto split: sum.splits)
  from Cons.IH [OF l] have "g' = g1\<lparr>startStopInfoByName := startStopInfoByName g'\<rparr>" .
  also have "\<dots> = g\<lparr>startStopInfoByName := startStopInfoByName g'\<rparr>"
    by (subst step_frame [OF s]) simp
  finally show ?case .
qed

lemma frame_record:
  "g1 = g0\<lparr>startStopInfoByName := i\<rparr> \<Longrightarrow> g0 = g\<lparr>printed := p\<rparr> \<Longrightarrow>
   g1 = g\<lparr>startStopInfoByName := startStopInfoByName g1, printed := printed g1\<rparr>"
  by simp

lemma frame_record2:
  "g1 = g\<lparr>startStopInfoByName := i, printed := p\<rparr> \<Longrightarrow> g' = g1\<lparr>printed := q\<rparr> \<Longrightarrow>
   g' = g\<lparr>startStopInfoByName := startStopInfoByName g', printed := printed g'\<rparr>"
  by simp

lemma frame_fields:
  "g' = g\<lparr>startStopInfoByName := i, printed := p\<rparr> \<Longrightarrow>
   nodesByName g' = nodesByName g \<and> parents g' = parents g \<and> children g' = children g \<and>
   attributes g' = attributes g \<and> start_tsorted_names g' = start_tsorted_names g \<and>
   rootsByName g' = rootsByName g \<and> leavesByName g' = leavesByName g \<and>
   rejected_dependencies g' = rejected_dependencies g"
  by simp

lemma diamond_startup_runs:
  "(case DependencyGraph_init diamond_components diamond_dependencies True 0 of
      Inl e \<Rightarrow> False
    | Inr g \<Rightarrow>
        (case set_startStopInfoByName STARTUP g of
           Inl e \<Rightarrow> False
         | Inr g1 \<Rightarrow>
            startStopInfo g1 ''d'' BEGIN_STARTUP_KEY = Some (td_minutes 5) \<and>
            (case set_startStopInfoByName SHUTDOWN g1 of
               Inl e \<Rightarrow> False
             | Inr g2 \<Rightarrow> startStopInfo g2 ''a'' BEGIN_SHUTDOWN_KEY = Some (- td_minutes 13))))"
  by code_simp

text \<open>
  C10. When \<open>set_startStopInfoByName\<close> returns, in any direction, the graph it returns is
  the graph it was given except for the start/stop records and the lines printed: the
  node names, the attributes, parents and children of every node, the roots, the leaves,
  the order and the rejected dependencies are the same.
\<close>

theorem schedule_frame:
  assumes "set_startStopInfoByName dependency_direction g = Inr g'"
  shows "g' = g\<lparr>startStopInfoByName := startStopInfoByName g', printed := printed g'\<rparr>"
proof -
  let ?g0 = "trace_enter 2 ''set_startStopInfoByName'' g"
  from assms obtain g1 where
    l: "set_startStopInfo_loop dependency_direction (tsorted_names dependency_direction ?g0) ?g0 =
        Inr g1"
    and g': "g' = trace_exit 2 ''set_startStopInfoByName'' g1"
    by (auto simp: set_startStopInfoByName_def Let_def split: sum.splits)
  from loop_frame [OF l] have "g1 = ?g0\<lparr>startStopInfoByName := startStopInfoByName g1\<rparr>" .
  moreover have "?g0 = g\<lparr>printed := printed ?g0\<rparr>"
    by (simp add: trace_enter_def vprint_def)
  ultimately have "g1 = g\<lparr>startStopInfoByName := startStopInfoByName g1, printed := printed g1\<rparr>"
    by (rule frame_record)
  moreover have "g' = g1\<lparr>printed := printed g'\<rparr>"
    by (simp add: g' trace_exit_def vprint_def)
  ultimately show ?thesis by (rule frame_record2)
qed

theorem schedule_frame_witness:
  "\<exists>g g'. DependencyGraph_init diamond_components diamond_dependencies True 0 = Inr g \<and>
      set_startStopInfoByName STARTUP g = Inr g' \<and>
      nodesByName g' = nodesByName g \<and> parents g' = parents g \<and> children g' = children g \<and>
      attributes g' = attributes g \<and> start_tsorted_names g' = start_tsorted_names g \<and>
      rootsByName g' = rootsByName g \<and> leavesByName g' = leavesByName g \<and>
      rejected_dependencies g' = rejected_dependencies g"
proof -
  from diamond_startup_runs obtain g g' where
    g: "DependencyGraph_init diamond_components diamond_dependencies True 0 = Inr g" and
    r: "set_startStopInfoByName STARTUP g = Inr g'"
    by (auto split: sum.splits)
  from schedule_frame [OF r]
  have "g' = g\<lparr>startStopInfoByName := startStopInfoByName g', printed := printed g'\<rparr>" .
  then have "nodesByName g' = nodesByName g \<and> parents g' = parents g \<and>
      children g' = children g \<and>
      attributes g' = attributes g \<and> start_tsorted_names g' = start_tsorted_names g \<and>
      rootsByName g' = rootsByName g \<and> leavesByName g' = leavesByName g \<and>
      rejected_dependencies g' = rejected_dependencies g"
    by (rule frame_fields)
  with g r show ?thesis by blast
qed

subsection \<open>Running the propagator again\<close>

lemma parent_reference_times_cong:
  "(\<And>p. p \<in> set ps \<Longrightarrow> info' p = info p) \<Longrightarrow>
   parent_reference_times info' k ps = parent_reference_times info k ps"
  by (induction ps) (auto split: option.splits sum.splits)

lemma reference_time_cong:
  "(\<And>p. p \<in> set ps \<Longrightarrow> info' p = info p) \<Longrightarrow>
   reference_time d info' ps = reference_time d info ps"
  unfolding reference_time_def using parent_reference_times_cong [of ps info' info] by simp

lemma step_info_other:
  assumes "set_startStopInfo_step d n g = Inr g'" and "m \<noteq> n"
  shows "startStopInfoByName g' m = startStopInfoByName g m"
  using assms by (elim step_InrD) (simp add: ensure_entry_def)

lemma map_add_twice: "(e ++ upd) ++ upd = e ++ (upd :: 'a \<rightharpoonup> 'b)"
  by (simp add: map_add_def fun_eq_iff split: option.splits)

text \<open>After its own step a node is stable, unless it is its own parent.\<close>

lemma stable_after_step:
  assumes s: "set_startStopInfo_step d n g = Inr g'" and np: "n \<notin> set (get_parents d g n)"
  shows "stable d g' n"
proof -
  let ?i = "ensure_entry (startStopInfoByName g) n"
  from s obtain ref upd where
    n: "n \<in> set (nodesByName g)" and
    r: "reference_time d ?i (get_parents d g n) = Inr ref" and
    u: "start_stop_update d ref (attributes g n) = Inr upd" and
    g': "g' = g\<lparr>startStopInfoByName := ?i(n \<mapsto> the (?i n) ++ upd)\<rparr>"
    by (rule step_InrD)
  let ?e = "the (?i n) ++ upd"
  have i': "startStopInfoByName g' = ?i(n \<mapsto> ?e)" by (simp add: g')
  have en: "ensure_entry (startStopInfoByName g') n = ?i(n \<mapsto> ?e)"
    by (simp add: i' ensure_entry_def)
  have gp: "get_parents d g' n = get_parents d g n" by (simp add: g' get_parents_def)
  have "reference_time d (?i(n \<mapsto> ?e)) (get_parents d g n) =
        reference_time d ?i (get_parents d g n)"
    by (rule reference_time_cong) (use np in auto)
  with r have r': "reference_time d (ensure_entry (startStopInfoByName g') n) (get_parents d g' n) =
                   Inr ref"
    by (simp add: en gp)
  have n': "n \<in> set (nodesByName g')" using n by (simp add: g')
  have u': "start_stop_update d ref (attributes g' n) = Inr upd" using u by (simp add: g')
  from step_InrI [OF n' r' u']
  have "set_startStopInfo_step d n g' =
        Inr (g'\<lparr>startStopInfoByName := (?i(n \<mapsto> ?e))(n \<mapsto> the ((?i(n \<mapsto> ?e)) n) ++ upd)\<rparr>)"
    by (simp add: en)
  moreover have "(?i(n \<mapsto> ?e))(n \<mapsto> the ((?i(n \<mapsto> ?e)) n) ++ upd) = startStopInfoByName g'"
    by (simp add: i' map_add_twice)
  ultimately show ?thesis unfolding stable_def by simp
qed

text \<open>A stable node stays stable under the step of another node that is not one of its
  parents.\<close>

lemma stable_other_step:
  assumes st: "stable d g n" and s: "set_startStopInfo_step d m g = Inr g'"
    and mn: "m \<noteq> n" and mp: "m \<notin> set (get_parents d g n)"
  shows "stable d g' n"
proof -
  let ?i = "ensure_entry (startStopInfoByName g) n"
  let ?i' = "ensure_entry (startStopInfoByName g') n"
  from st obtain g1 where
    s1: "set_startStopInfo_step d n g = Inr g1" and
    e1: "startStopInfoByName g1 = startStopInfoByName g"
    unfolding stable_def by blast
  from s1 obtain ref upd where
    n: "n \<in> set (nodesByName g)" and
    r: "reference_time d ?i (get_parents d g n) = Inr ref" and
    u: "start_stop_update d ref (attributes g n) = Inr upd" and
    g1: "g1 = g\<lparr>startStopInfoByName := ?i(n \<mapsto> the (?i n) ++ upd)\<rparr>"
    by (rule step_InrD)
  from e1 have fp: "?i(n \<mapsto> the (?i n) ++ upd) = startStopInfoByName g" by (simp add: g1)
  then have sn: "startStopInfoByName g n = Some (the (?i n) ++ upd)"
    by (metis fun_upd_same)
  then have i_eq: "?i = startStopInfoByName g" by (auto simp: ensure_entry_def)
  have fr: "g' = g\<lparr>startStopInfoByName := startStopInfoByName g'\<rparr>" by (rule step_frame [OF s])
  have other: "\<And>x. x \<noteq> m \<Longrightarrow> startStopInfoByName g' x = startStopInfoByName g x"
    using step_info_other [OF s] by blast
  have sn': "startStopInfoByName g' n = startStopInfoByName g n" using other mn by simp
  then have i'_eq: "?i' = startStopInfoByName g'" using sn by (auto simp: ensure_entry_def)
  have gp: "get_parents d g' n = get_parents d g n"
    by (subst fr) (simp add: get_parents_def)
  have at: "attributes g' n = attributes g n" by (subst fr) simp
  have n': "n \<in> set (nodesByName g')" using n by (subst fr) simp
  have "reference_time d (startStopInfoByName g') (get_parents d g n) =
        reference_time d (startStopInfoByName g) (get_parents d g n)"
  proof (rule reference_time_cong)
    fix p assume "p \<in> set (get_parents d g n)"
    with mp have "p \<noteq> m" by auto
    then show "startStopInfoByName g' p = startStopInfoByName g p" by (rule other)
  qed
  with r have r': "reference_time d ?i' (get_parents d g' n) = Inr ref"
    by (simp add: i'_eq i_eq gp)
  have u': "start_stop_update d ref (attributes g' n) = Inr upd" using u by (simp add: at)
  from step_InrI [OF n' r' u']
  have "set_startStopInfo_step d n g' =
        Inr (g'\<lparr>startStopInfoByName := ?i'(n \<mapsto> the (?i' n) ++ upd)\<rparr>)" .
  moreover have "?i'(n \<mapsto> the (?i' n) ++ upd) = startStopInfoByName g'"
  proof -
    have "the (?i' n) ++ upd = the (?i n) ++ upd" by (simp add: i'_eq i_eq sn')
    then have "?i'(n \<mapsto> the (?i' n) ++ upd) = (startStopInfoByName g')(n \<mapsto> the (?i n) ++ upd)"
      by (simp add: i'_eq)
    also have "\<dots> = startStopInfoByName g'"
      using sn sn' by (auto simp: fun_eq_iff)
    finally show ?thesis .
  qed
  ultimately show ?thesis unfolding stable_def by simp
qed

text \<open>Over stable nodes the loop changes nothing.\<close>

lemma loop_stable:
  "\<forall>n\<in>set ns. stable d g n \<Longrightarrow> set_startStopInfo_loop d ns g = Inr g"
proof (induction ns)
  case Nil
  then show ?case by simp
next
  case (Cons n ns)
  from Cons.prems obtain g1 where
    s: "set_startStopInfo_step d n g = Inr g1" and
    e: "startStopInfoByName g1 = startStopInfoByName g"
    unfolding stable_def by auto
  from step_frame [OF s] e have "g1 = g" by simp
  with s Cons show ?case by simp
qed

lemma loop_makes_stable:
  "set_startStopInfo_loop d ns g = Inr g' \<Longrightarrow> deps_first d g (seen @ ns) \<Longrightarrow>
   distinct (seen @ ns) \<Longrightarrow> \<forall>n\<in>set seen. stable d g n \<Longrightarrow>
   \<forall>n\<in>set (seen @ ns). stable d g' n"
proof (induction ns arbitrary: g seen)
  case Nil
  then show ?case by simp
next
  case (Cons n ns)
  from Cons.prems(1) obtain g1 where
    s: "set_startStopInfo_step d n g = Inr g1" and l: "set_startStopInfo_loop d ns g1 = Inr g'"
    by (auto split: sum.splits)
  have fr: "g1 = g\<lparr>startStopInfoByName := startStopInfoByName g1\<rparr>" by (rule step_frame [OF s])
  have gp: "\<And>x. get_parents d g1 x = get_parents d g x"
    by (subst fr) (simp add: get_parents_def)
  from Cons.prems(2) have "set (get_parents d g n) \<inter> set (n # ns) = {}"
    unfolding deps_first_def by blast
  then have "n \<notin> set (get_parents d g n)" by auto
  from stable_after_step [OF s this] have sn: "stable d g1 n" .
  have sd: "stable d g1 x" if x: "x \<in> set seen" for x
  proof -
    from x obtain us vs where "seen = us @ x # vs" by (auto simp: in_set_conv_decomp)
    then have "seen @ n # ns = us @ x # (vs @ n # ns)" by simp
    with Cons.prems(2) have "set (get_parents d g x) \<inter> set (x # vs @ n # ns) = {}"
      unfolding deps_first_def by blast
    then have "n \<notin> set (get_parents d g x)" by auto
    moreover have "n \<noteq> x" using Cons.prems(3) x by auto
    ultimately show ?thesis using stable_other_step [OF _ s] Cons.prems(4) x by blast
  qed
  have d1: "deps_first d g1 ((seen @ [n]) @ ns)"
    using Cons.prems(2) unfolding deps_first_def gp by simp
  have "\<forall>x\<in>set ((seen @ [n]) @ ns). stable d g' x"
    by (rule Cons.IH [OF l d1]) (use Cons.prems(3) sn sd in auto)
  then show ?case by simp
qed

lemma before_split_left:
  "distinct (xs @ n # ys) \<Longrightarrow> before (xs @ n # ys) p n \<Longrightarrow> p \<in> set xs"
proof (induction xs)
  case Nil
  then show ?case using before_in_set [of ys p n] by (auto split: if_splits)
next
  case (Cons x xs)
  then show ?case by (auto split: if_splits)
qed

lemma before_split_right:
  "distinct (us @ n # vs) \<Longrightarrow> before (us @ n # vs) n c \<Longrightarrow> c \<in> set vs"
  by (induction us) (auto split: if_splits)

lemma finalized_deps_first:
  assumes fin: "finalized g"
  shows "deps_first d g (tsorted_names d g)"
proof -
  let ?ts = "start_tsorted_names g"
  from fin have wf: "wf_links g" and dist: "distinct ?ts"
    and bef: "\<And>n p. p \<in> set (parents g n) \<Longrightarrow> before ?ts p n"
    unfolding finalized_def by blast+
  show ?thesis
  proof (cases "d = STARTUP")
    case True
    have "set (parents g n) \<inter> set (n # ys) = {}" if sp: "?ts = xs @ n # ys" for xs n ys
    proof -
      have "p \<notin> set (n # ys)" if p: "p \<in> set (parents g n)" for p
      proof -
        from bef [OF p] have "before (xs @ n # ys) p n" by (simp add: sp)
        from before_split_left [OF _ this] dist have "p \<in> set xs" by (simp add: sp)
        with dist show ?thesis by (auto simp: sp)
      qed
      then show ?thesis by blast
    qed
    then show ?thesis
      unfolding deps_first_def tsorted_names_def get_parents_def using True by simp
  next
    case False
    have "set (children g n) \<inter> set (n # ys) = {}" if sp: "rev ?ts = xs @ n # ys" for xs n ys
    proof -
      from sp have ts: "?ts = rev ys @ n # rev xs"
        by (metis rev_rev_ident rev_append rev.simps(2) append_Cons append_Nil append_assoc)
      have "c \<notin> set (n # ys)" if c: "c \<in> set (children g n)" for c
      proof -
        from c have "n \<in> set (parents g c)" using wf_linksD(2) [OF wf] by simp
        from bef [OF this] have "before (rev ys @ n # rev xs) n c" by (simp add: ts)
        from before_split_right [OF _ this] dist have "c \<in> set (rev xs)" by (simp add: ts)
        with dist show ?thesis by (auto simp: ts)
      qed
      then show ?thesis by blast
    qed
    then show ?thesis
      unfolding deps_first_def tsorted_names_def get_parents_def using False by simp
  qed
qed

lemma step_printed:
  "set_startStopInfo_step d n (g\<lparr>printed := x\<rparr>) =
     (case set_startStopInfo_step d n g of
        Inl e \<Rightarrow> Inl e
      | Inr g' \<Rightarrow> Inr (g'\<lparr>printed := x\<rparr>))"
proof -
  have gp: "get_parents d (g\<lparr>printed := x\<rparr>) n = get_parents d g n"
    by (simp add: get_parents_def)
  show ?thesis
    by (simp add: set_startStopInfo_step_def Let_def gp split: sum.splits)
qed

lemma stable_printed: "stable d (g\<lparr>printed := x\<rparr>) n = stable d g n"
  unfolding stable_def step_printed by (auto split: sum.splits)

lemma trace_enter_printed: "trace_enter l m g = g\<lparr>printed := printed (trace_enter l m g)\<rparr>"
  by (simp add: trace_enter_def vprint_def)

lemma trace_exit_printed: "trace_exit l m g = g\<lparr>printed := printed (trace_exit l m g)\<rparr>"
  by (simp add: trace_exit_def vprint_def)

lemma deps_first_cong:
  "parents g' = parents g \<Longrightarrow> children g' = children g \<Longrightarrow>
   deps_first d g' ns = deps_first d g ns"
  by (simp add: deps_first_def get_parents_def)

text \<open>
  C9. On a finalized graph, when a run of \<open>set_startStopInfoByName\<close> has returned, a
  second run in the same direction returns as well and leaves every start/stop record
  as the first run left it.
\<close>

theorem schedule_idempotent:
  assumes fin: "finalized g"
    and r1: "set_startStopInfoByName dependency_direction g = Inr g1"
  shows "\<exists>g2. set_startStopInfoByName dependency_direction g1 = Inr g2 \<and>
              startStopInfoByName g2 = startStopInfoByName g1"
proof -
  let ?d = dependency_direction
  let ?g0 = "trace_enter 2 ''set_startStopInfoByName'' g"
  let ?ns = "tsorted_names ?d g"
  have ns0: "tsorted_names ?d ?g0 = ?ns" by (simp add: tsorted_names_def trace_fields)
  from r1 obtain h where
    l: "set_startStopInfo_loop ?d ?ns ?g0 = Inr h" and
    g1: "g1 = trace_exit 2 ''set_startStopInfoByName'' h"
    by (auto simp: set_startStopInfoByName_def Let_def ns0 split: sum.splits)
  have df: "deps_first ?d ?g0 ([] @ ?ns)"
    using finalized_deps_first [OF fin, of ?d] deps_first_cong [of ?g0 g ?d ?ns]
    by (simp add: trace_fields)
  have dist: "distinct ([] @ ?ns)"
    using fin by (simp add: finalized_def tsorted_names_def)
  from loop_makes_stable [OF l df dist] have st: "\<forall>n\<in>set ?ns. stable ?d h n" by simp
  let ?h0 = "trace_enter 2 ''set_startStopInfoByName'' g1"
  have hfr: "h = ?g0\<lparr>startStopInfoByName := startStopInfoByName h\<rparr>" by (rule loop_frame [OF l])
  have "start_tsorted_names h = start_tsorted_names g"
    by (subst hfr) (simp add: trace_fields)
  then have ns1: "tsorted_names ?d ?h0 = ?ns"
    by (simp add: tsorted_names_def trace_fields g1)
  have "?h0 = h\<lparr>printed := printed ?h0\<rparr>"
    by (simp add: g1 trace_enter_def trace_exit_def vprint_def)
  then have "\<forall>n\<in>set ?ns. stable ?d ?h0 n"
    using st stable_printed [where d = ?d and g = h and x = "printed ?h0"] by simp
  from loop_stable [OF this] have l2: "set_startStopInfo_loop ?d ?ns ?h0 = Inr ?h0" .
  have "set_startStopInfoByName ?d g1 = Inr (trace_exit 2 ''set_startStopInfoByName'' ?h0)"
    by (simp add: set_startStopInfoByName_def Let_def ns1 l2)
  moreover have "startStopInfoByName (trace_exit 2 ''set_startStopInfoByName'' ?h0) =
                 startStopInfoByName g1"
    by (simp add: trace_fields)
  ultimately show ?thesis by blast
qed

lemma run_keeps_finalized:
  assumes "set_startStopInfoByName d g = Inr g'"
  shows "finalized g' = finalized g"
proof -
  let ?g0 = "trace_enter 2 ''set_startStopInfoByName'' g"
  from assms obtain h where
    l: "set_startStopInfo_loop d (tsorted_names d ?g0) ?g0 = Inr h" and
    g': "g' = trace_exit 2 ''set_startStopInfoByName'' h"
    by (auto simp: set_startStopInfoByName_def Let_def split: sum.splits)
  have hfr: "h = ?g0\<lparr>startStopInfoByName := startStopInfoByName h\<rparr>" by (rule loop_frame [OF l])
  have "nodesByName h = nodesByName g" "parents h = parents g" "children h = children g"
    "start_tsorted_names h = start_tsorted_names g"
    by (subst hfr, simp add: trace_fields)+
  then show ?thesis
    by (intro finalized_cong) (simp_all add: g' trace_fields)
qed

lemma diamond_finalized:
  "DependencyGraph_init diamond_components diamond_dependencies True 0 = Inr g \<Longrightarrow> finalized g"
proof -
  assume g: "DependencyGraph_init diamond_components diamond_dependencies True 0 = Inr g"
  have "valid_input diamond_components diamond_dependencies"
    by (simp add: valid_input_def diamond_components_def diamond_dependencies_def)
  from DependencyGraph_init_cases [OF this, of True 0] g show "finalized g" by auto
qed

theorem schedule_idempotent_witness:
  "\<exists>g g1 g2 h1 h2.
      DependencyGraph_init diamond_components diamond_dependencies True 0 = Inr g \<and>
      set_startStopInfoByName STARTUP g = Inr g1 \<and>
      set_startStopInfoByName STARTUP g1 = Inr g2 \<and>
      startStopInfoByName g2 = startStopInfoByName g1 \<and>
      set_startStopInfoByName SHUTDOWN g1 = Inr h1 \<and>
      set_startStopInfoByName SHUTDOWN h1 = Inr h2 \<and>
      startStopInfoByName h2 = startStopInfoByName h1"
proof -
  from diamond_startup_runs obtain g g1 h1 where
    g: "DependencyGraph_init diamond_components diamond_dependencies True 0 = Inr g" and
    r: "set_startStopInfoByName STARTUP g = Inr g1" and
    s: "set_startStopInfoByName SHUTDOWN g1 = Inr h1"
    by (auto split: sum.splits)
  have fin: "finalized g" by (rule diamond_finalized [OF g])
  have fin1: "finalized g1" using run_keeps_finalized [OF r] fin by simp
  from schedule_idempotent [OF fin r] schedule_idempotent [OF fin1 s] g r s
  show ?thesis by blast
qed

section \<open>Verbosity\<close>





























end
